theory Spec2Isabelle
  imports Main "HOL-Library.Sublist" "HOL-Library.AList"
begin

section \<open>The scaffold Makefiles\<close>

text \<open>
  The repository holds two Makefiles with the same targets: the one of
  \<^verbatim>\<open>react_redux_boilerplate\<close> (variant \<open>JS\<close>) and the one of the TypeScript
  boilerplate (variant \<open>TS\<close>). A Makefile is data for \<^verbatim>\<open>make\<close> and for the shell, so
  the embedding has three layers: the rules as written (targets, prerequisites, recipe
  lines), the part of the shell the recipe lines use (\<^verbatim>\<open>cd\<close>, \<^verbatim>\<open>echo\<close>, \<^verbatim>\<open>&&\<close>, one
  pipe), and the file-system commands the recipes call (\<^verbatim>\<open>mkdir -p\<close>, \<^verbatim>\<open>cp\<close>, \<^verbatim>\<open>mv\<close>), on a
  file system with directories, regular files and symbolic links. Every other program
  (\<^verbatim>\<open>npx\<close>, \<^verbatim>\<open>npm\<close>, \<^verbatim>\<open>jq\<close>, \<^verbatim>\<open>sponge\<close>, \<^verbatim>\<open>git\<close>) is a parameter.
\<close>

datatype variant = JS | TS

subsection \<open>Variables\<close>

text \<open>
  Both Makefiles start with \<^verbatim>\<open>NAME = 'my_project'\<close> and \<^verbatim>\<open>PARENT_DIR = .\<close>. The quotes
  belong to the value that make substitutes; the shell removes them when it reads the
  recipe line. An assignment on the command line (\<^verbatim>\<open>make build NAME=demo\<close>) replaces the
  one of the Makefile.
\<close>

definition makefile_vars :: "variant \<Rightarrow> (string \<times> string) list" where
  "makefile_vars v =
     [(''NAME'', CHR 0x27 # ''my_project'' @ [CHR 0x27]),
      (''PARENT_DIR'', ''.'')]"

definition expand :: "variant \<Rightarrow> (string \<times> string) list \<Rightarrow> string \<Rightarrow> string" where
  "expand v cmdline x =
     (case map_of cmdline x of
        Some s \<Rightarrow> s
      | None \<Rightarrow> (case map_of (makefile_vars v) x of Some s \<Rightarrow> s | None \<Rightarrow> []))"

definition unquote :: "string \<Rightarrow> string" where
  "unquote s = filter (\<lambda>c. c \<noteq> CHR 0x27) s"

record params =
  NAME :: string
  PARENT_DIR :: string

definition params_of :: "variant \<Rightarrow> (string \<times> string) list \<Rightarrow> params" where
  "params_of v cmdline =
     \<lparr>NAME = unquote (expand v cmdline ''NAME''),
      PARENT_DIR = unquote (expand v cmdline ''PARENT_DIR'')\<rparr>"

text \<open>
  The recipes paste \<^verbatim>\<open>$(NAME)\<close> into shell words without quoting it. The development
  reads such a word as one argument, which is what the shell does for a name made of
  letters, digits, \<^verbatim>\<open>_\<close>, \<^verbatim>\<open>-\<close> and \<^verbatim>\<open>.\<close>; a name that is one path component and does
  not look like an option is \<open>safe_name\<close>.
\<close>

definition name_char :: "char \<Rightarrow> bool" where
  "name_char c =
     (c \<in> set ''abcdefghijklmnopqrstuvwxyzABCDEFGHIJKLMNOPQRSTUVWXYZ0123456789_-.'')"

definition safe_name :: "string \<Rightarrow> bool" where
  "safe_name n =
     (n \<noteq> [] \<and> list_all name_char n \<and> take 1 n \<noteq> ''-'' \<and> n \<noteq> ''.'' \<and> n \<noteq> ''..'')"

subsection \<open>Paths and the file system\<close>

text \<open>
  A place is the list of the names that lead to it from the root directory. The file
  system is the list of its entries, each place with what is there: a directory, a
  regular file with its content, or a symbolic link with its text. The root directory is
  always there. \<open>stat\<close> looks at the place itself and does not follow a link. Permissions,
  hard links and time stamps are not part of the model: every entry can be read and
  written by the user who runs make, and every regular file has one name.
\<close>

type_synonym path = "string list"

datatype inode = Dir | File string | Link string

type_synonym filesystem = "(path \<times> inode) list"

definition stat :: "filesystem \<Rightarrow> path \<Rightarrow> inode option" where
  "stat fs p = (if p = [] then Some Dir else map_of fs p)"

definition under :: "path \<Rightarrow> path \<Rightarrow> bool" where
  "under d p = (take (length d) p = d)"

datatype error =
    NoSuchFile
  | NotADirectory
  | OmitDirectory
  | NoDestDir
  | OverwriteDir
  | OverwriteNonDir
  | SameFile
  | IntoItself
  | NotEmpty
  | TooManyLinks
  | DanglingLink
  | InvalidOption
  | ToolFailed
  | NoRule

text \<open>
  A path string is split at \<^verbatim>\<open>/\<close>. The shell's \<^verbatim>\<open>cd\<close> works on the text: empty names and
  \<^verbatim>\<open>.\<close> are dropped, \<^verbatim>\<open>..\<close> removes the name before it (\<open>resolve\<close>). The operating system
  looks every name up (\<open>namei\<close>): a name on the way must be a directory or a link to
  one, \<^verbatim>\<open>..\<close> is the directory above the one reached, the text of a link is walked from the
  directory that holds the link (from the root if it starts with \<^verbatim>\<open>/\<close>), and after
  \<open>links_max\<close> links the lookup gives up. The last name may be missing: the place where it
  would be is the answer. With \<open>follow\<close> a link at the last name is followed too.
\<close>

fun split_path :: "string \<Rightarrow> string list" where
  "split_path [] = [[]]"
| "split_path (c # cs) =
     (if c = CHR ''/'' then [] # split_path cs
      else (case split_path cs of [] \<Rightarrow> [[c]] | w # ws \<Rightarrow> (c # w) # ws))"

fun walk :: "path \<Rightarrow> string list \<Rightarrow> path" where
  "walk cur [] = cur"
| "walk cur (c # cs) =
     (if c = [] \<or> c = ''.'' then walk cur cs
      else if c = ''..'' then walk (butlast cur) cs
      else walk (cur @ [c]) cs)"

definition resolve :: "path \<Rightarrow> string \<Rightarrow> path" where
  "resolve cwd s =
     (if take 1 s = ''/'' then walk [] (split_path s) else walk cwd (split_path s))"

definition links_max :: nat where
  "links_max = 40"

fun namei :: "nat \<Rightarrow> filesystem \<Rightarrow> bool \<Rightarrow> path \<Rightarrow> string list \<Rightarrow> error + path" where
  "namei fuel fs follow cur [] = Inr cur"
| "namei fuel fs follow cur (c # cs) =
     (if c = [] \<or> c = ''.'' then namei fuel fs follow cur cs
      else if c = ''..'' then namei fuel fs follow (butlast cur) cs
      else (case stat fs (cur @ [c]) of
              None \<Rightarrow> (if cs = [] then Inr (cur @ [c]) else Inl NoSuchFile)
            | Some Dir \<Rightarrow> namei fuel fs follow (cur @ [c]) cs
            | Some (File x) \<Rightarrow> (if cs = [] then Inr (cur @ [c]) else Inl NotADirectory)
            | Some (Link t) \<Rightarrow>
                (if cs = [] \<and> \<not> follow then Inr (cur @ [c])
                 else (case fuel of
                         0 \<Rightarrow> Inl TooManyLinks
                       | Suc n \<Rightarrow>
                           namei n fs follow (if take 1 t = ''/'' then [] else cur)
                             (split_path t @ cs)))))"

text \<open>
  A program looks a path string up from the root directory if the string starts with
  \<^verbatim>\<open>/\<close>, and else through the names of its working directory.
\<close>

definition names :: "path \<Rightarrow> string \<Rightarrow> string list" where
  "names cwd s = (if take 1 s = ''/'' then split_path s else cwd @ split_path s)"

definition locate :: "filesystem \<Rightarrow> bool \<Rightarrow> path \<Rightarrow> string \<Rightarrow> error + path" where
  "locate fs follow cwd s =
     (if s = [] then Inl NoSuchFile else namei links_max fs follow [] (names cwd s))"

definition is_dir :: "filesystem \<Rightarrow> path \<Rightarrow> bool" where
  "is_dir fs p =
     (case namei links_max fs True [] p of Inl e \<Rightarrow> False | Inr q \<Rightarrow> stat fs q = Some Dir)"

definition present :: "filesystem \<Rightarrow> path \<Rightarrow> string \<Rightarrow> bool" where
  "present fs cwd s =
     (case locate fs True cwd s of Inl e \<Rightarrow> False | Inr q \<Rightarrow> stat fs q \<noteq> None)"

definition basename :: "string \<Rightarrow> string" where
  "basename s = (case rev (filter (\<lambda>c. c \<noteq> []) (split_path s)) of [] \<Rightarrow> [] | b # bs \<Rightarrow> b)"

text \<open>\<^verbatim>\<open>mkdir -p\<close> goes down name by name: a missing directory is created, a directory or
  a link to one is entered, anything else in the way is an error. What was created before
  the error stays.\<close>

fun mkdir_p :: "filesystem \<Rightarrow> path \<Rightarrow> string list \<Rightarrow> error option \<times> filesystem" where
  "mkdir_p fs cur [] = (None, fs)"
| "mkdir_p fs cur (c # cs) =
     (if c = [] \<or> c = ''.'' then mkdir_p fs cur cs
      else if c = ''..'' then mkdir_p fs (butlast cur) cs
      else (case stat fs (cur @ [c]) of
              None \<Rightarrow> mkdir_p (AList.update (cur @ [c]) Dir fs) (cur @ [c]) cs
            | Some Dir \<Rightarrow> mkdir_p fs (cur @ [c]) cs
            | Some (File x) \<Rightarrow> (Some NotADirectory, fs)
            | Some (Link t) \<Rightarrow>
                (case namei links_max fs True cur [c] of
                   Inl e \<Rightarrow> (Some e, fs)
                 | Inr q \<Rightarrow> (if stat fs q = Some Dir then mkdir_p fs q cs
                             else (Some NotADirectory, fs)))))"

definition mkdir :: "filesystem \<Rightarrow> path \<Rightarrow> string \<Rightarrow> error option \<times> filesystem" where
  "mkdir fs cwd d =
     (if take 1 d = ''/'' then mkdir_p fs [] (split_path d)
      else (case namei links_max fs True [] cwd of
              Inl e \<Rightarrow> (Some e, fs)
            | Inr base \<Rightarrow> (if stat fs base = Some Dir then mkdir_p fs base (split_path d)
                           else (Some NotADirectory, fs))))"

text \<open>\<^verbatim>\<open>cp SRC DST\<close> without options. The source, links followed, must be a regular file.
  A destination that is a directory (or a link to one) receives the file under the
  source's own name. The copy is written where the destination leads, links followed: an
  existing regular file is overwritten, also through a link; a link that leads to nothing
  is refused (\<open>landing\<close>); the directory that is to hold the copy must exist.\<close>

definition landing :: "filesystem \<Rightarrow> path \<Rightarrow> string list \<Rightarrow> error + path" where
  "landing fs cur cs =
     (case namei links_max fs False cur cs of
        Inl e \<Rightarrow> Inl (if e = TooManyLinks then TooManyLinks else NoDestDir)
      | Inr l \<Rightarrow>
          (case stat fs l of
             Some (Link x) \<Rightarrow>
               (case namei links_max fs True cur cs of
                  Inl e \<Rightarrow> Inl (if e = TooManyLinks then TooManyLinks else DanglingLink)
                | Inr t \<Rightarrow> (if stat fs t = None then Inl DanglingLink else Inr t))
           | _ \<Rightarrow> Inr l))"

definition cp :: "filesystem \<Rightarrow> path \<Rightarrow> string \<Rightarrow> string \<Rightarrow> error + filesystem" where
  "cp fs cwd src dst =
     (case locate fs True cwd src of
        Inl e \<Rightarrow> Inl NoSuchFile
      | Inr s \<Rightarrow>
          (case stat fs s of
             None \<Rightarrow> Inl NoSuchFile
           | Some Dir \<Rightarrow> Inl OmitDirectory
           | Some (Link x) \<Rightarrow> Inl NoSuchFile
           | Some (File c) \<Rightarrow>
               (case (case locate fs True cwd dst of
                        Inl e \<Rightarrow> (if dst = [] then Inl NoDestDir
                                  else landing fs [] (names cwd dst))
                      | Inr d \<Rightarrow> (if stat fs d = Some Dir then landing fs d [basename src]
                                  else landing fs [] (names cwd dst))) of
                  Inl e \<Rightarrow> Inl e
                | Inr t \<Rightarrow>
                    (if t = s then Inl SameFile
                     else if stat fs t = Some Dir then Inl OverwriteDir
                     else Inr (AList.update t (File c) fs)))))"

text \<open>\<^verbatim>\<open>mv SRC DST\<close> without options renames a file, a link or a whole directory tree. A
  destination that is a directory (or a link to one) receives the source under its own
  name; any other destination is replaced, a directory only if it is empty.\<close>

definition move :: "filesystem \<Rightarrow> path \<Rightarrow> path \<Rightarrow> filesystem" where
  "move fs s t =
     map (\<lambda>(p, n). if under s p then (t @ drop (length s) p, n) else (p, n))
         (filter (\<lambda>(p, n). \<not> under t p) fs)"

definition has_entries :: "filesystem \<Rightarrow> path \<Rightarrow> bool" where
  "has_entries fs d = list_ex (\<lambda>(p, n). under d p \<and> p \<noteq> d) fs"

definition rename :: "filesystem \<Rightarrow> path \<Rightarrow> path \<Rightarrow> error + filesystem" where
  "rename fs s t =
     (case stat fs s of
        None \<Rightarrow> Inl NoSuchFile
      | Some n \<Rightarrow>
          (if s = [] then Inl IntoItself
           else if t = s then Inl SameFile
           else if under s t then Inl IntoItself
           else (case stat fs t of
                   None \<Rightarrow> Inr (move fs s t)
                 | Some Dir \<Rightarrow>
                     (if n \<noteq> Dir then Inl OverwriteDir
                      else if has_entries fs t then Inl NotEmpty
                      else Inr (move fs s t))
                 | Some other \<Rightarrow>
                     (if n = Dir then Inl OverwriteNonDir else Inr (move fs s t)))))"

definition mv :: "filesystem \<Rightarrow> path \<Rightarrow> string \<Rightarrow> string \<Rightarrow> error + filesystem" where
  "mv fs cwd src dst =
     (case locate fs False cwd src of
        Inl e \<Rightarrow> Inl NoSuchFile
      | Inr s \<Rightarrow>
          (case (case locate fs True cwd dst of
                   Inl e \<Rightarrow> locate fs False cwd dst
                 | Inr d \<Rightarrow> (if stat fs d = Some Dir then Inr (d @ [basename src])
                             else locate fs False cwd dst)) of
             Inl e \<Rightarrow> Inl NoDestDir
           | Inr t \<Rightarrow> rename fs s t))"

text \<open>
  An argument of two or more characters that starts with \<^verbatim>\<open>-\<close> is an option. \<^verbatim>\<open>mv\<close>
  reads its options before it touches a file and stops at the first letter it does not
  know; its letters are \<^verbatim>\<open>f\<close> and \<^verbatim>\<open>i\<close> (POSIX) and \<^verbatim>\<open>b n S t T u v Z\<close> (GNU). The three
  commands are modelled in the forms the recipes use; \<open>coreutil\<close> answers \<open>None\<close> for any
  other form, which is then a command like \<^verbatim>\<open>npm\<close>: a parameter.
\<close>

definition is_option :: "string \<Rightarrow> bool" where
  "is_option a = (take 1 a = ''-'' \<and> 2 \<le> length a)"

definition mv_letters :: string where
  "mv_letters = ''bfinStTuvZ''"

definition done_or :: "filesystem \<Rightarrow> error + filesystem \<Rightarrow> error option \<times> filesystem" where
  "done_or fs r = (case r of Inl e \<Rightarrow> (Some e, fs) | Inr fs' \<Rightarrow> (None, fs'))"

definition coreutil ::
  "string list \<Rightarrow> path \<Rightarrow> filesystem \<Rightarrow> (error option \<times> filesystem) option" where
  "coreutil argv cwd fs =
     (case argv of
        [] \<Rightarrow> None
      | c # args \<Rightarrow>
          if c = ''mkdir'' then
            (case args of
               [a, d] \<Rightarrow> (if a = ''-p'' \<and> \<not> is_option d
                           then Some (mkdir fs cwd d) else None)
             | _ \<Rightarrow> None)
          else if c = ''cp'' then
            (case args of
               [s, d] \<Rightarrow> (if \<not> is_option s \<and> \<not> is_option d
                           then Some (done_or fs (cp fs cwd s d)) else None)
             | _ \<Rightarrow> None)
          else if c = ''mv'' then
            (case filter is_option args of
               [] \<Rightarrow> (case args of
                        [s, d] \<Rightarrow> Some (done_or fs (mv fs cwd s d))
                      | _ \<Rightarrow> None)
             | a # _ \<Rightarrow>
                 (case a of
                    _ # l # _ \<Rightarrow> (if l \<in> set mv_letters \<or> l = CHR ''-'' then None
                                  else Some (Some InvalidOption, fs))
                  | _ \<Rightarrow> None))
          else None)"

subsection \<open>The shell\<close>

text \<open>
  The world a run changes: the files, the programs started so far (each with the working
  directory it was started in) and the prerequisites make has reached so far, each with
  whether make ran its recipe (\<open>True\<close>) or took it as up to date (\<open>False\<close>). What \<^verbatim>\<open>echo\<close>
  prints is not part of it. A tool outside the model is a function from its arguments,
  its working directory and the world to its exit status (\<open>True\<close> is status 0) and the
  files it leaves.
\<close>

record world =
  files :: filesystem
  invoked :: "(path \<times> string list) list"
  reached :: "(string \<times> bool) list"

type_synonym tools = "string list \<Rightarrow> path \<Rightarrow> world \<Rightarrow> bool \<times> filesystem"

datatype sh =
    Cd string
  | Echo string
  | Run "string list"
  | And sh sh
  | Pipe sh sh

definition run_tool :: "tools \<Rightarrow> string list \<Rightarrow> path \<Rightarrow> world \<Rightarrow> error option \<times> world" where
  "run_tool tools argv cwd w =
     (let w1 = w\<lparr>invoked := invoked w @ [(cwd, argv)]\<rparr> in
      case coreutil argv cwd (files w) of
        Some (st, fs') \<Rightarrow> (st, w1\<lparr>files := fs'\<rparr>)
      | None \<Rightarrow>
          (case tools argv cwd w of
             (ok, fs') \<Rightarrow> (if ok then None else Some ToolFailed, w1\<lparr>files := fs'\<rparr>)))"

text \<open>
  \<^verbatim>\<open>cd\<close> works out the new directory on the text of its argument and enters it if it is
  a directory, links followed (\<^verbatim>\<open>/bin/sh\<close> as dash; a shell that looks up the name before
  each \<^verbatim>\<open>..\<close> refuses more). \<^verbatim>\<open>a && b\<close> runs \<open>b\<close> only after \<open>a\<close> succeeded, in the
  directory \<open>a\<close> left. The exit status of \<^verbatim>\<open>a | b\<close> is the status of \<open>b\<close> (the recipes run
  under \<^verbatim>\<open>/bin/sh\<close>, which has no \<^verbatim>\<open>pipefail\<close>), and both sides run in subshells, so the
  directory stays. The one pipe of the Makefiles ends in \<^verbatim>\<open>sponge\<close>, which writes after its
  input has ended, so its left side is run first.
\<close>

fun run_sh :: "tools \<Rightarrow> sh \<Rightarrow> path \<Rightarrow> world \<Rightarrow> error option \<times> path \<times> world" where
  "run_sh tools (Cd d) cwd w =
     (if is_dir (files w) (resolve cwd d) then (None, resolve cwd d, w)
      else (Some NoSuchFile, cwd, w))"
| "run_sh tools (Echo s) cwd w = (None, cwd, w)"
| "run_sh tools (Run argv) cwd w =
     (case run_tool tools argv cwd w of (st, w') \<Rightarrow> (st, cwd, w'))"
| "run_sh tools (And a b) cwd w =
     (case run_sh tools a cwd w of
        (None, cwd', w') \<Rightarrow> run_sh tools b cwd' w'
      | (Some e, cwd', w') \<Rightarrow> (Some e, cwd', w'))"
| "run_sh tools (Pipe a b) cwd w =
     (case run_sh tools a cwd w of
        (st1, cwd1, w1) \<Rightarrow>
          (case run_sh tools b cwd w1 of (st2, cwd2, w2) \<Rightarrow> (st2, cwd, w2)))"

subsection \<open>Rules and recipes\<close>

record rule =
  target :: string
  prereqs :: "string list"
  recipe :: "sh list"

definition in_project :: "params \<Rightarrow> sh \<Rightarrow> sh" where
  "in_project p c = And (Cd (NAME p)) c"

definition in_moved :: "params \<Rightarrow> sh \<Rightarrow> sh" where
  "in_moved p c = And (Cd (PARENT_DIR p @ ''/'' @ NAME p)) c"

definition legacy :: "variant \<Rightarrow> string list" where
  "legacy v = (case v of JS \<Rightarrow> [] | TS \<Rightarrow> [''--legacy-peer-deps''])"

definition help_rule :: rule where
  "help_rule =
     \<lparr>target = ''help'', prereqs = [],
      recipe = [Echo ''react-redux initial setup'',
                Echo ''dependencies: npx, jq, sponge'',
                Echo ''run: make build NAME=name PARENT_DIR=parent_dir'']\<rparr>"

definition generator :: "variant \<Rightarrow> params \<Rightarrow> string list" where
  "generator v p =
     [''/usr/bin/npx'', ''create-react-app'', NAME p, ''--use-npm'']
     @ (case v of JS \<Rightarrow> [] | TS \<Rightarrow> [''--template'', ''typescript''])"

definition create_react_app :: "variant \<Rightarrow> params \<Rightarrow> rule" where
  "create_react_app v p =
     \<lparr>target = ''create-react-app'', prereqs = [], recipe = [Run (generator v p)]\<rparr>"

definition configure_prettier :: "params \<Rightarrow> rule" where
  "configure_prettier p =
     \<lparr>target = ''configure-prettier'', prereqs = [],
      recipe =
        [And (And (Cd (NAME p))
                  (Run [''npm'', ''install'', ''husky'', ''lint-staged'', ''prettier'']))
             (Pipe (Run [''jq'', ''-s'', ''.[0] * .[1]'', ''package.json'',
                         ''../prettier-config.json''])
                   (Run [''sponge'', ''package.json''])),
         in_project p (Run [''/usr/bin/npx'', ''husky'', ''add'', ''.husky/pre-commit'',
                            ''npx lint-staged''])]\<rparr>"

definition install_bootstrap :: "variant \<Rightarrow> params \<Rightarrow> rule" where
  "install_bootstrap v p =
     \<lparr>target = ''install-bootstrap'', prereqs = [],
      recipe = [in_project p
                  (Run ([''npm'', ''install'', ''react-bootstrap'', ''bootstrap'']
                        @ legacy v))]\<rparr>"

definition install_redux :: "variant \<Rightarrow> params \<Rightarrow> rule" where
  "install_redux v p =
     \<lparr>target = ''install-redux'', prereqs = [],
      recipe = [in_project p
                  (Run ([''npm'', ''install'', ''redux'', ''react-redux'']
                        @ (case v of JS \<Rightarrow> []
                           | TS \<Rightarrow> [''@reduxjs/toolkit'', ''redux-devtools-extension''])
                        @ legacy v))]\<rparr>"

definition install_router :: "variant \<Rightarrow> params \<Rightarrow> rule" where
  "install_router v p =
     \<lparr>target = ''install-router'', prereqs = [],
      recipe = [in_project p
                  (Run ([''npm'', ''install'', ''react-router-dom''] @ legacy v))]\<rparr>"

definition install_styled_components :: "variant \<Rightarrow> params \<Rightarrow> rule" where
  "install_styled_components v p =
     \<lparr>target = ''install-styled-components'', prereqs = [],
      recipe = [in_project p
                  (Run ([''npm'', ''install'', ''styled-components''] @ legacy v))]\<rparr>"

text \<open>The directories and the four copies of \<^verbatim>\<open>copy-files\<close>, as the two Makefiles list
  them: what follows \<^verbatim>\<open>$(NAME)/src/\<close> in each \<^verbatim>\<open>mkdir -p\<close>, and source and destination of
  each \<^verbatim>\<open>cp\<close>.\<close>

definition copy_dirs :: "variant \<Rightarrow> string list" where
  "copy_dirs v =
     (case v of
        JS \<Rightarrow> [''components'', ''actions'', ''reducers'']
      | TS \<Rightarrow> [''components'', ''app''])"

definition copy_pairs :: "variant \<Rightarrow> (string \<times> string) list" where
  "copy_pairs v =
     (case v of
        JS \<Rightarrow> [(''boilerplate-action.js'', ''actions/index.js''),
               (''boilerplate-reducer.js'', ''reducers/index.js''),
               (''boilerplate-app.js'', ''App.js''),
               (''boilerplate-index.js'', ''index.js'')]
      | TS \<Rightarrow> [(''boilerplate-store.ts'', ''app/store.tsx''),
               (''boilerplate-hooks.ts'', ''app/hooks.tsx''),
               (''boilerplate-app.tsx'', ''App.tsx''),
               (''boilerplate-index.tsx'', ''index.tsx'')])"

definition copy_files :: "variant \<Rightarrow> params \<Rightarrow> rule" where
  "copy_files v p =
     \<lparr>target = ''copy-files'', prereqs = [],
      recipe =
        map (\<lambda>d. Run [''mkdir'', ''-p'', NAME p @ ''/src/'' @ d]) (copy_dirs v)
        @ map (\<lambda>(s, d). Run [''cp'', s, NAME p @ ''/src/'' @ d]) (copy_pairs v)\<rparr>"

definition commit_message :: string where
  "commit_message = ''Initial setup of Redux and friends''"

definition git_commit :: "variant \<Rightarrow> params \<Rightarrow> rule" where
  "git_commit v p =
     \<lparr>target = ''git-commit'', prereqs = [],
      recipe =
        [(case v of
            JS \<Rightarrow> Run [''mv'', ''-r'', NAME p, PARENT_DIR p @ ''/.'']
          | TS \<Rightarrow> Run [''mv'', NAME p, PARENT_DIR p]),
         in_moved p (Run [''git'', ''init'']),
         in_moved p (Run [''git'', ''add'', ''.'']),
         in_moved p (Run [''git'', ''commit'', ''-m'' @ commit_message])]\<rparr>"

definition build_steps :: "variant \<Rightarrow> string list" where
  "build_steps v =
     (case v of
        JS \<Rightarrow> [''create-react-app'', ''configure-prettier'', ''install-redux'',
               ''install-router'', ''install-bootstrap'', ''install-styled-components'',
               ''copy-files'', ''git-commit'']
      | TS \<Rightarrow> [''create-react-app'', ''install-redux'', ''install-router'',
               ''install-bootstrap'', ''install-styled-components'', ''copy-files'',
               ''git-commit''])"

definition build :: "variant \<Rightarrow> rule" where
  "build v = \<lparr>target = ''build'', prereqs = build_steps v, recipe = [Echo ''success'']\<rparr>"

definition makefile :: "variant \<Rightarrow> params \<Rightarrow> rule list" where
  "makefile v p =
     [help_rule, create_react_app v p, configure_prettier p, install_bootstrap v p,
      install_redux v p, install_router v p, install_styled_components v p,
      copy_files v p, git_commit v p, build v]"

subsection \<open>make\<close>

text \<open>
  make starts every recipe line in a shell of its own, in the directory it was invoked
  in, and gives up at the first line whose status is not 0: the lines and the targets
  after it are not run, and what was done stays. The prerequisites of a target are
  reached first, from left to right. None of the targets is declared phony: when make
  reaches a prerequisite whose name is present in the invocation directory (a file, a
  directory, or a link that leads to one), it takes it as up to date and leaves its
  recipe out; otherwise it runs the recipe. Only
  \<^verbatim>\<open>build\<close> has prerequisites, and none of them has any. The recipe of the goal is run
  if the goal is not present or the recipe of a prerequisite was run. (With \<^verbatim>\<open>build\<close>
  present and every prerequisite taken as up to date, time stamps decide; the recipe of
  \<^verbatim>\<open>build\<close> only prints.)
\<close>

datatype outcome = Done | Stopped string error

fun run_recipe :: "tools \<Rightarrow> path \<Rightarrow> sh list \<Rightarrow> world \<Rightarrow> error option \<times> world" where
  "run_recipe tools root [] w = (None, w)"
| "run_recipe tools root (l # ls) w =
     (case run_sh tools l root w of
        (None, cwd', w') \<Rightarrow> run_recipe tools root ls w'
      | (Some e, cwd', w') \<Rightarrow> (Some e, w'))"

definition run_rule :: "tools \<Rightarrow> path \<Rightarrow> rule \<Rightarrow> world \<Rightarrow> outcome \<times> world" where
  "run_rule tools root r w =
     (case run_recipe tools root (recipe r) w of
        (None, w') \<Rightarrow> (Done, w')
      | (Some e, w') \<Rightarrow> (Stopped (target r) e, w'))"

definition rule_for :: "rule list \<Rightarrow> string \<Rightarrow> rule option" where
  "rule_for mk t = find (\<lambda>r. target r = t) mk"

fun run_steps :: "tools \<Rightarrow> path \<Rightarrow> rule list \<Rightarrow> string list \<Rightarrow> world \<Rightarrow> outcome \<times> world" where
  "run_steps tools root mk [] w = (Done, w)"
| "run_steps tools root mk (t # ts) w =
     (if present (files w) root t
      then run_steps tools root mk ts (w\<lparr>reached := reached w @ [(t, False)]\<rparr>)
      else (case rule_for mk t of
              None \<Rightarrow> (Stopped t NoRule, w)
            | Some r \<Rightarrow>
                (case run_rule tools root r w of
                   (Done, w') \<Rightarrow>
                     run_steps tools root mk ts (w'\<lparr>reached := reached w' @ [(t, True)]\<rparr>)
                 | (Stopped t' e, w') \<Rightarrow>
                     (Stopped t' e, w'\<lparr>reached := reached w' @ [(t, True)]\<rparr>))))"

definition make :: "tools \<Rightarrow> path \<Rightarrow> rule list \<Rightarrow> string \<Rightarrow> world \<Rightarrow> outcome \<times> world" where
  "make tools root mk goal w =
     (case rule_for mk goal of
        None \<Rightarrow> (if present (files w) root goal then (Done, w) else (Stopped goal NoRule, w))
      | Some r \<Rightarrow>
          (case run_steps tools root mk (prereqs r) w of
             (Stopped t e, w') \<Rightarrow> (Stopped t e, w')
           | (Done, w') \<Rightarrow>
               (if present (files w') root goal \<and>
                   \<not> list_ex snd (drop (length (reached w)) (reached w'))
                then (Done, w')
                else run_rule tools root r w')))"
section \<open>Notions used in the claims\<close>

text \<open>
  The programs a shell command starts, each with the directory it is started in, and the
  directory the shell is in afterwards, read off the command as if every part of it
  succeeded; the programs of a recipe, line after line (\<open>recipe_calls\<close>); and the programs
  of the recipes of a list of targets, one target after the other (\<open>named_calls\<close>).
\<close>

fun calls :: "sh \<Rightarrow> path \<Rightarrow> path \<times> (path \<times> string list) list" where
  "calls (Cd d) cwd = (resolve cwd d, [])"
| "calls (Echo s) cwd = (cwd, [])"
| "calls (Run argv) cwd = (cwd, [(cwd, argv)])"
| "calls (And a b) cwd =
     (case calls a cwd of (cwd1, xs) \<Rightarrow>
        (case calls b cwd1 of (cwd2, ys) \<Rightarrow> (cwd2, xs @ ys)))"
| "calls (Pipe a b) cwd = (cwd, snd (calls a cwd) @ snd (calls b cwd))"

definition recipe_calls :: "path \<Rightarrow> sh list \<Rightarrow> (path \<times> string list) list" where
  "recipe_calls root ls = concat (map (\<lambda>l. snd (calls l root)) ls)"

definition named_calls :: "path \<Rightarrow> rule list \<Rightarrow> string list \<Rightarrow> (path \<times> string list) list" where
  "named_calls root mk ts =
     concat (map (\<lambda>t. case rule_for mk t of None \<Rightarrow> []
                        | Some r \<Rightarrow> recipe_calls root (recipe r)) ts)"

text \<open>The prerequisites whose recipes were run, among those reached.\<close>

definition ran :: "(string \<times> bool) list \<Rightarrow> string list" where
  "ran rs = map fst (filter snd rs)"

text \<open>
  Where the Makefiles start each program of \<^verbatim>\<open>build\<close>: \<^verbatim>\<open>git\<close> in the moved project
  (\<^verbatim>\<open>cd $(PARENT_DIR)/$(NAME) &&\<close>), the installers and the formatting tools in the project
  (\<^verbatim>\<open>cd $(NAME) &&\<close>), everything else in the directory make was invoked in.
\<close>

definition started_in :: "path \<Rightarrow> params \<Rightarrow> string list \<Rightarrow> path" where
  "started_in root p argv =
     (if take 1 argv = [''git''] then resolve root (PARENT_DIR p @ ''/'' @ NAME p)
      else if take 1 argv = [''npm''] \<or> take 1 argv = [''jq''] \<or> take 1 argv = [''sponge'']
              \<or> take 2 argv = [''/usr/bin/npx'', ''husky'']
      then root @ [NAME p]
      else root)"

text \<open>The directories \<^verbatim>\<open>mkdir -p\<close> visits on the way down from \<open>cur\<close>.\<close>

fun ways :: "path \<Rightarrow> string list \<Rightarrow> path list" where
  "ways cur [] = []"
| "ways cur (c # cs) = (cur @ [c]) # ways (cur @ [c]) cs"

text \<open>
  The statements about \<^verbatim>\<open>copy-files\<close> are made for an invocation directory that is what its
  path says (\<open>at_home\<close>: every name of the path is an ordinary name and a directory, not a
  link to one), and for a file system in which none of the places the step names is a
  symbolic link (\<open>linkfree\<close> on \<open>places\<close>): the project directory, its \<^verbatim>\<open>src\<close>, the
  directories of the \<^verbatim>\<open>mkdir -p\<close> lines, the four templates, the four destinations, and
  the place inside a destination where the copy lands if the destination is a directory.
\<close>

definition ordinary :: "string \<Rightarrow> bool" where
  "ordinary c = (c \<noteq> [] \<and> c \<noteq> ''.'' \<and> c \<noteq> ''..'')"

definition at_home :: "filesystem \<Rightarrow> path \<Rightarrow> bool" where
  "at_home fs root =
     (list_all ordinary root \<and> list_all (\<lambda>q. stat fs q = Some Dir) (ways [] root))"

definition is_link :: "filesystem \<Rightarrow> path \<Rightarrow> bool" where
  "is_link fs q = (case stat fs q of Some (Link t) \<Rightarrow> True | _ \<Rightarrow> False)"

definition linkfree :: "filesystem \<Rightarrow> path list \<Rightarrow> bool" where
  "linkfree fs ps = list_all (\<lambda>q. \<not> is_link fs q) ps"

definition places :: "variant \<Rightarrow> path \<Rightarrow> params \<Rightarrow> path list" where
  "places v root p =
     [root @ [NAME p], root @ [NAME p, ''src'']]
     @ map (\<lambda>d. root @ [NAME p, ''src'', d]) (copy_dirs v)
     @ concat (map (\<lambda>(s, d). [root @ [s],
                               root @ NAME p # ''src'' # split_path d,
                               root @ NAME p # ''src'' # split_path d @ [s]])
                   (copy_pairs v))"

text \<open>Nothing is at \<open>d\<close> or below it.\<close>

definition unmade :: "filesystem \<Rightarrow> path \<Rightarrow> bool" where
  "unmade fs d = (\<not> list_ex (\<lambda>(q, x). under d q) fs)"

section \<open>Notions used in the proofs\<close>

text \<open>
  \<^verbatim>\<open>mkdir -p\<close> and \<^verbatim>\<open>cp\<close> as they act where every name is an ordinary one and no symbolic
  link is in the way: \<open>plain_mkdir\<close> goes down from a directory already reached,
  \<open>plain_copy\<close> copies from one place to another. Lemmas \<open>mkdir_plain\<close> and \<open>cp_plain\<close>
  say when the commands of the model act like this.
\<close>

fun plain_mkdir :: "filesystem \<Rightarrow> path \<Rightarrow> string list \<Rightarrow> error option \<times> filesystem" where
  "plain_mkdir fs cur [] = (None, fs)"
| "plain_mkdir fs cur (c # cs) =
     (case stat fs (cur @ [c]) of
        None \<Rightarrow> plain_mkdir (AList.update (cur @ [c]) Dir fs) (cur @ [c]) cs
      | Some Dir \<Rightarrow> plain_mkdir fs (cur @ [c]) cs
      | Some other \<Rightarrow> (Some NotADirectory, fs))"

definition cp_target :: "filesystem \<Rightarrow> path \<Rightarrow> path \<Rightarrow> path" where
  "cp_target fs s d = (if stat fs d = Some Dir then d @ [last s] else d)"

definition plain_copy :: "filesystem \<Rightarrow> path \<Rightarrow> path \<Rightarrow> error + filesystem" where
  "plain_copy fs s d =
     (case stat fs s of
        None \<Rightarrow> Inl NoSuchFile
      | Some Dir \<Rightarrow> Inl OmitDirectory
      | Some (Link x) \<Rightarrow> Inl NoSuchFile
      | Some (File c) \<Rightarrow>
          (let t = cp_target fs s d in
           if t = s then Inl SameFile
           else if stat fs t = Some Dir then Inl OverwriteDir
           else if stat fs (butlast t) \<noteq> Some Dir then Inl NoDestDir
           else Inr (AList.update t (File c) fs)))"

text \<open>What the lines of \<^verbatim>\<open>copy-files\<close> do to the files: the \<^verbatim>\<open>mkdir -p\<close> lines, then the
  \<^verbatim>\<open>cp\<close> lines, each list stopping at the first error with the files as they are then.\<close>

fun mkdirs :: "path \<Rightarrow> string list list \<Rightarrow> filesystem \<Rightarrow> error option \<times> filesystem" where
  "mkdirs base [] fs = (None, fs)"
| "mkdirs base (d # ds) fs =
     (case plain_mkdir fs base d of
        (None, fs') \<Rightarrow> mkdirs base ds fs'
      | (Some e, fs') \<Rightarrow> (Some e, fs'))"

fun copies :: "(path \<times> path) list \<Rightarrow> filesystem \<Rightarrow> error option \<times> filesystem" where
  "copies [] fs = (None, fs)"
| "copies (sd # ps) fs =
     (case plain_copy fs (fst sd) (snd sd) of
        Inl e \<Rightarrow> (Some e, fs)
      | Inr fs' \<Rightarrow> copies ps fs')"

text \<open>A recipe whose lines are single file-system commands, run on the files alone.\<close>

fun lines :: "path \<Rightarrow> string list list \<Rightarrow> filesystem \<Rightarrow> error option \<times> filesystem" where
  "lines root [] fs = (None, fs)"
| "lines root (a # as) fs =
     (case coreutil a root fs of
        None \<Rightarrow> (Some ToolFailed, fs)
      | Some (None, fs') \<Rightarrow> lines root as fs'
      | Some (Some e, fs') \<Rightarrow> (Some e, fs'))"

text \<open>The two places a copy can land, copies that cannot land on one another, and a copy
  that has been made: source and target hold the same content.\<close>

definition targets :: "path \<times> path \<Rightarrow> path set" where
  "targets sd = {snd sd, snd sd @ [last (fst sd)]}"

fun apart :: "(path \<times> path) list \<Rightarrow> bool" where
  "apart [] = True"
| "apart (sd # ps) = ((\<forall>b \<in> set ps. targets sd \<inter> targets b = {}) \<and> apart ps)"

definition settled :: "filesystem \<Rightarrow> path \<times> path \<Rightarrow> bool" where
  "settled fs sd =
     (let t = cp_target fs (fst sd) (snd sd) in
      t \<noteq> fst sd \<and> stat fs (butlast t) = Some Dir \<and>
      (\<exists>c. stat fs (fst sd) = Some (File c) \<and> stat fs t = Some (File c)))"

definition dir_paths :: "variant \<Rightarrow> params \<Rightarrow> string list list" where
  "dir_paths v p = map (\<lambda>d. [NAME p, ''src'', d]) (copy_dirs v)"

definition pair_paths :: "variant \<Rightarrow> path \<Rightarrow> params \<Rightarrow> (path \<times> path) list" where
  "pair_paths v root p =
     map (\<lambda>(s, d). (root @ [s], root @ NAME p # ''src'' # split_path d)) (copy_pairs v)"

definition mkdir_args :: "variant \<Rightarrow> params \<Rightarrow> string list list" where
  "mkdir_args v p = map (\<lambda>d. [''mkdir'', ''-p'', NAME p @ ''/src/'' @ d]) (copy_dirs v)"

definition cp_args :: "variant \<Rightarrow> params \<Rightarrow> string list list" where
  "cp_args v p = map (\<lambda>(s, d). [''cp'', s, NAME p @ ''/src/'' @ d]) (copy_pairs v)"

definition copy_result :: "variant \<Rightarrow> path \<Rightarrow> params \<Rightarrow> filesystem \<Rightarrow> error option \<times> filesystem" where
  "copy_result v root p fs =
     (case mkdirs root (dir_paths v p) fs of
        (None, f) \<Rightarrow> copies (pair_paths v root p) f
      | (Some e, f) \<Rightarrow> (Some e, f))"

definition copy_calls :: "variant \<Rightarrow> path \<Rightarrow> params \<Rightarrow> (path \<times> string list) list" where
  "copy_calls v root p =
     map (\<lambda>d. (root, [''mkdir'', ''-p'', NAME p @ ''/src/'' @ d])) (copy_dirs v)
     @ map (\<lambda>(s, d). (root, [''cp'', s, NAME p @ ''/src/'' @ d])) (copy_pairs v)"

text \<open>In a \<open>straight\<close> command the left side of a pipe is a single program.\<close>

fun straight :: "sh \<Rightarrow> bool" where
  "straight (And a b) = (straight a \<and> straight b)"
| "straight (Pipe a b) = ((case a of Run argv \<Rightarrow> True | _ \<Rightarrow> False) \<and> straight b)"
| "straight l = True"

definition steps_calls :: "path \<Rightarrow> rule list \<Rightarrow> (path \<times> string list) list" where
  "steps_calls root rs = concat (map (\<lambda>r. recipe_calls root (recipe r)) rs)"

text \<open>The rules behind the prerequisites of \<^verbatim>\<open>build\<close>, in the order of the list.\<close>

definition build_rules :: "variant \<Rightarrow> params \<Rightarrow> rule list" where
  "build_rules v p =
     (case v of
        JS \<Rightarrow> [create_react_app JS p, configure_prettier p, install_redux JS p,
               install_router JS p, install_bootstrap JS p, install_styled_components JS p,
               copy_files JS p, git_commit JS p]
      | TS \<Rightarrow> [create_react_app TS p, install_redux TS p, install_router TS p,
               install_bootstrap TS p, install_styled_components TS p, copy_files TS p,
               git_commit TS p])"

section \<open>A sample invocation\<close>

text \<open>
  \<^verbatim>\<open>make ... NAME=demo PARENT_DIR=/tmp\<close> in the directory \<^verbatim>\<open>/work\<close>, which holds the
  templates of both variants. The sample tools: \<^verbatim>\<open>create-react-app\<close> refuses a name that
  exists, unless it is an empty directory, and otherwise creates the project directory
  with a manifest; a program listed in
  \<open>failing\<close> exits with status 1; every other program exits with status 0. None of them
  changes a file otherwise.
\<close>

definition demo_root :: path where
  "demo_root = [''work'']"

definition demo_params :: params where
  "demo_params = \<lparr>NAME = ''demo'', PARENT_DIR = ''/tmp''\<rparr>"

definition demo_files :: filesystem where
  "demo_files =
     [([''tmp''], Dir),
      ([''work''], Dir),
      ([''work'', ''boilerplate-action.js''], File ''action''),
      ([''work'', ''boilerplate-reducer.js''], File ''reducer''),
      ([''work'', ''boilerplate-app.js''], File ''app''),
      ([''work'', ''boilerplate-index.js''], File ''index''),
      ([''work'', ''boilerplate-store.ts''], File ''store''),
      ([''work'', ''boilerplate-hooks.ts''], File ''hooks''),
      ([''work'', ''boilerplate-app.tsx''], File ''app-ts''),
      ([''work'', ''boilerplate-index.tsx''], File ''index-ts'')]"

definition demo_world :: world where
  "demo_world = \<lparr>files = demo_files, invoked = [], reached = []\<rparr>"

definition demo_tools :: "string list \<Rightarrow> tools" where
  "demo_tools failing argv cwd w =
     (if take 2 argv = [''/usr/bin/npx'', ''create-react-app''] then
        (let d = cwd @ take 1 (drop 2 argv);
             fresh = (True, AList.update (d @ [''package.json'']) (File ''{}'')
                             (AList.update d Dir (files w)))
         in case stat (files w) d of
              None \<Rightarrow> fresh
            | Some Dir \<Rightarrow> (if has_entries (files w) d then (False, files w) else fresh)
            | Some other \<Rightarrow> (False, files w))
      else (case argv of [] \<Rightarrow> True | a # _ \<Rightarrow> a \<notin> set failing, files w))"

definition demo_existing :: world where
  "demo_existing =
     demo_world\<lparr>files :=
       [([''work'', ''demo''], Dir),
        ([''work'', ''demo'', ''package.json''], File ''{}'')] @ demo_files\<rparr>"

definition demo_skeleton :: world where
  "demo_skeleton =
     demo_world\<lparr>files :=
       [([''work'', ''demo''], Dir),
        ([''work'', ''demo'', ''src''], Dir),
        ([''work'', ''demo'', ''src'', ''App.js''], File ''generated'')] @ demo_files\<rparr>"

text \<open>
  Four more starting points: the destination \<^verbatim>\<open>demo/src/App.js\<close> is a directory; a file named
  \<^verbatim>\<open>copy-files\<close> lies in the invocation directory; the destination \<^verbatim>\<open>demo/src/index.js\<close> is a
  symbolic link to the first template; and, for \<^verbatim>\<open>NAME=create-react-app\<close>, a project
  directory of that name is there already.
\<close>

definition demo_app_dir :: world where
  "demo_app_dir =
     demo_world\<lparr>files :=
       [([''work'', ''demo''], Dir),
        ([''work'', ''demo'', ''src''], Dir),
        ([''work'', ''demo'', ''src'', ''App.js''], Dir)] @ demo_files\<rparr>"

definition demo_up_to_date :: world where
  "demo_up_to_date =
     demo_world\<lparr>files := ([''work'', ''copy-files''], File []) # demo_files\<rparr>"

definition demo_linked :: world where
  "demo_linked =
     demo_world\<lparr>files :=
       [([''work'', ''demo''], Dir),
        ([''work'', ''demo'', ''src''], Dir),
        ([''work'', ''demo'', ''src'', ''index.js''], Link ''/work/boilerplate-action.js'')]
       @ demo_files\<rparr>"

definition named_params :: params where
  "named_params = \<lparr>NAME = ''create-react-app'', PARENT_DIR = ''/tmp''\<rparr>"

definition demo_named :: world where
  "demo_named =
     demo_world\<lparr>files :=
       [([''work'', ''create-react-app''], Dir),
        ([''work'', ''create-react-app'', ''package.json''], File ''{}'')] @ demo_files\<rparr>"
section \<open>Paths, directories and copies\<close>

lemma name_char_slash: "name_char c \<Longrightarrow> c \<noteq> CHR ''/''"
  by (auto simp: name_char_def)

lemma safe_name_no_slash: "safe_name n \<Longrightarrow> CHR ''/'' \<notin> set n"
  by (auto simp: safe_name_def list_all_iff dest: name_char_slash)

lemma safe_name_ordinary: "safe_name n \<Longrightarrow> ordinary n"
  by (simp add: safe_name_def ordinary_def)

lemma split_path_nonempty: "split_path s \<noteq> []"
  by (induction s) (auto split: list.splits)

lemma split_path_plain: "CHR ''/'' \<notin> set n \<Longrightarrow> split_path n = [n]"
  by (induction n) (auto split: list.splits)

lemma split_path_append:
  "CHR ''/'' \<notin> set n \<Longrightarrow> split_path (n @ CHR ''/'' # r) = n # split_path r"
  by (induction n) (auto split: list.splits)

lemma safe_name_first: "safe_name n \<Longrightarrow> take 1 (n @ r) \<noteq> ''/''"
  by (cases n) (auto simp: safe_name_def name_char_def)

lemma resolve_name: "safe_name n \<Longrightarrow> resolve cwd n = cwd @ [n]"
  using safe_name_first[of n "[]"]
  by (auto simp: resolve_def split_path_plain safe_name_no_slash safe_name_def)

lemma stat_update:
  "t \<noteq> [] \<Longrightarrow> stat (AList.update t n fs) q = (if q = t then Some n else stat fs q)"
  by (auto simp: stat_def update_conv')

lemma ways_length:
  "q \<in> set (ways cur cs) \<Longrightarrow> length cur < length q \<and> length q \<le> length cur + length cs"
proof (induction cs arbitrary: cur)
  case Nil
  then show ?case by simp
next
  case (Cons c cs)
  from Cons.prems consider "q = cur @ [c]" | "q \<in> set (ways (cur @ [c]) cs)" by auto
  then show ?case
  proof cases
    case 1
    then show ?thesis by simp
  next
    case 2
    from Cons.IH[OF this] show ?thesis by simp
  qed
qed

lemma ways_last: "cs \<noteq> [] \<Longrightarrow> cur @ cs \<in> set (ways cur cs)"
proof (induction cs arbitrary: cur)
  case Nil
  then show ?case by simp
next
  case (Cons c cs)
  show ?case
  proof (cases "cs = []")
    case True
    then show ?thesis by simp
  next
    case False
    from Cons.IH[OF this, of "cur @ [c]"] show ?thesis by simp
  qed
qed

subsection \<open>Looking names up\<close>

lemma namei_dirs:
  "list_all ordinary xs \<Longrightarrow> \<forall>q \<in> set (ways cur xs). stat fs q = Some Dir \<Longrightarrow>
   namei fuel fs follow cur (xs @ cs) = namei fuel fs follow (cur @ xs) cs"
proof (induction xs arbitrary: cur)
  case Nil
  then show ?case by simp
next
  case (Cons x xs)
  from Cons.prems have x: "x \<noteq> []" "x \<noteq> ''.''" "x \<noteq> ''..''" "stat fs (cur @ [x]) = Some Dir"
    by (simp_all add: ordinary_def)
  from Cons.prems have "list_all ordinary xs"
    "\<forall>q \<in> set (ways (cur @ [x]) xs). stat fs q = Some Dir" by simp_all
  from Cons.IH[OF this] x show ?case by simp
qed

lemma namei_last:
  "ordinary c \<Longrightarrow> \<not> is_link fs (cur @ [c]) \<Longrightarrow>
   namei fuel fs follow cur [c] = Inr (cur @ [c])"
  by (auto simp: ordinary_def is_link_def split: option.splits inode.splits)

lemma namei_home:
  "at_home fs root \<Longrightarrow> namei fuel fs follow [] (root @ cs) = namei fuel fs follow root cs"
  using namei_dirs[of root "[]" fs fuel follow cs]
  by (simp add: at_home_def list_all_iff)

lemma at_home_dir: "at_home fs root \<Longrightarrow> stat fs root = Some Dir"
proof (cases "root = []")
  case True
  then show ?thesis by (simp add: stat_def)
next
  case False
  assume "at_home fs root"
  with ways_last[OF False, of "[]"] show ?thesis
    by (simp add: at_home_def list_all_iff)
qed

lemma namei_home_self: "at_home fs root \<Longrightarrow> namei fuel fs follow [] root = Inr root"
  using namei_home[of fs root fuel follow "[]"] by simp

subsection \<open>Directories\<close>

lemma plain_mkdir_stat:
  "plain_mkdir fs cur cs = (None, fs') \<Longrightarrow>
   stat fs' q = (if q \<in> set (ways cur cs) then Some Dir else stat fs q)"
proof (induction cs arbitrary: fs cur)
  case Nil
  then show ?case by simp
next
  case (Cons c cs)
  show ?case
  proof (cases "stat fs (cur @ [c])")
    case None
    with Cons.prems have "plain_mkdir (AList.update (cur @ [c]) Dir fs) (cur @ [c]) cs = (None, fs')"
      by simp
    from Cons.IH[OF this] show ?thesis
      by (simp add: stat_update)
  next
    case (Some x)
    with Cons.prems obtain "x = Dir" and "plain_mkdir fs (cur @ [c]) cs = (None, fs')"
      by (cases x) auto
    with Cons.IH[of fs "cur @ [c]"] Some show ?thesis
      by auto
  qed
qed

lemma plain_mkdir_noop:
  "\<forall>q \<in> set (ways cur cs). stat fs q = Some Dir \<Longrightarrow> plain_mkdir fs cur cs = (None, fs)"
  by (induction cs arbitrary: cur) auto

lemma plain_mkdir_error: "plain_mkdir fs cur cs = (Some e, fs') \<Longrightarrow> e = NotADirectory"
  by (induction cs arbitrary: fs cur) (auto split: option.splits inode.splits)

lemma plain_mkdir_ok:
  "\<forall>q \<in> set (ways cur cs). stat fs q = None \<or> stat fs q = Some Dir \<Longrightarrow>
   fst (plain_mkdir fs cur cs) = None"
proof (induction cs arbitrary: fs cur)
  case Nil
  then show ?case by simp
next
  case (Cons c cs)
  show ?case
  proof (cases "stat fs (cur @ [c])")
    case None
    have "\<forall>q \<in> set (ways (cur @ [c]) cs).
            stat (AList.update (cur @ [c]) Dir fs) q = None \<or>
            stat (AList.update (cur @ [c]) Dir fs) q = Some Dir"
      using Cons.prems by (simp add: stat_update)
    from Cons.IH[OF this] None show ?thesis by simp
  next
    case (Some n)
    with Cons.prems have n: "n = Dir" by auto
    have "\<forall>q \<in> set (ways (cur @ [c]) cs). stat fs q = None \<or> stat fs q = Some Dir"
      using Cons.prems by simp
    from Cons.IH[OF this] Some n show ?thesis by simp
  qed
qed

text \<open>Where the names are ordinary and no link is on the way, \<^verbatim>\<open>mkdir -p\<close> is
  \<open>plain_mkdir\<close>.\<close>

lemma mkdir_p_plain:
  "list_all ordinary cs \<Longrightarrow> \<forall>q \<in> set (ways cur cs). \<not> is_link fs q \<Longrightarrow>
   mkdir_p fs cur cs = plain_mkdir fs cur cs"
proof (induction cs arbitrary: fs cur)
  case Nil
  then show ?case by simp
next
  case (Cons c cs)
  from Cons.prems have c: "c \<noteq> []" "c \<noteq> ''.''" "c \<noteq> ''..''"
    by (simp_all add: ordinary_def)
  from Cons.prems have cs: "list_all ordinary cs" by simp
  from Cons.prems have l: "\<not> is_link fs (cur @ [c])"
    and r: "\<forall>q \<in> set (ways (cur @ [c]) cs). \<not> is_link fs q" by simp_all
  show ?case
  proof (cases "stat fs (cur @ [c])")
    case None
    have "\<forall>q \<in> set (ways (cur @ [c]) cs). \<not> is_link (AList.update (cur @ [c]) Dir fs) q"
      using r by (simp add: is_link_def stat_update)
    from Cons.IH[OF cs this] None c show ?thesis by simp
  next
    case (Some n)
    show ?thesis
    proof (cases n)
      case Dir
      with Cons.IH[OF cs r] Some c show ?thesis by simp
    next
      case (File x)
      with Some c show ?thesis by simp
    next
      case (Link t)
      with Some l show ?thesis by (simp add: is_link_def)
    qed
  qed
qed

lemma mkdir_plain:
  assumes "at_home fs root" and "take 1 d \<noteq> ''/''" and "split_path d = cs"
    and "list_all ordinary cs" and "\<forall>q \<in> set (ways root cs). \<not> is_link fs q"
  shows "mkdir fs root d = plain_mkdir fs root cs"
  using assms
  by (simp add: mkdir_def namei_home_self at_home_dir mkdir_p_plain)

lemma mkdirs_stat:
  "mkdirs base ds fs = (None, fs') \<Longrightarrow>
   stat fs' q = (if q \<in> (\<Union>d \<in> set ds. set (ways base d)) then Some Dir else stat fs q)"
proof (induction ds arbitrary: fs)
  case Nil
  then show ?case by simp
next
  case (Cons d ds)
  then obtain f where f: "plain_mkdir fs base d = (None, f)" and r: "mkdirs base ds f = (None, fs')"
    by (auto split: prod.splits option.splits)
  show ?case using Cons.IH[OF r] plain_mkdir_stat[OF f] by auto
qed

lemma mkdirs_fixed:
  "\<forall>d \<in> set ds. \<forall>q \<in> set (ways base d). stat fs q = Some Dir \<Longrightarrow> mkdirs base ds fs = (None, fs)"
  by (induction ds) (auto simp: plain_mkdir_noop)

lemma mkdirs_error: "mkdirs base ds fs = (Some e, fs') \<Longrightarrow> e = NotADirectory"
  by (induction ds arbitrary: fs) (auto split: prod.splits option.splits dest: plain_mkdir_error)

lemma mkdirs_ok:
  "\<forall>d \<in> set ds. \<forall>q \<in> set (ways base d). stat fs q = None \<or> stat fs q = Some Dir \<Longrightarrow>
   fst (mkdirs base ds fs) = None"
proof (induction ds arbitrary: fs)
  case Nil
  then show ?case by simp
next
  case (Cons d ds)
  from Cons.prems have "\<forall>q \<in> set (ways base d). stat fs q = None \<or> stat fs q = Some Dir"
    by simp
  from plain_mkdir_ok[OF this] obtain f where f: "plain_mkdir fs base d = (None, f)"
    by (cases "plain_mkdir fs base d") auto
  have "\<forall>d' \<in> set ds. \<forall>q \<in> set (ways base d'). stat f q = None \<or> stat f q = Some Dir"
    using Cons.prems plain_mkdir_stat[OF f] by simp
  from Cons.IH[OF this] f show ?case by simp
qed

lemma dir_paths_made:
  assumes "mkdirs base ds fs = (None, f)" and "d \<in> set ds" and "q \<in> set (ways base d)"
  shows "stat f q = Some Dir"
  using mkdirs_stat[OF assms(1), of q] assms(2,3) by auto

subsection \<open>Copies\<close>

lemma cp_target_in: "cp_target fs s d \<in> targets (s, d)"
  by (simp add: cp_target_def targets_def)

lemma plain_copy_result:
  assumes "plain_copy fs s d = Inr fs'"
  obtains c where "stat fs s = Some (File c)"
    and "fs' = AList.update (cp_target fs s d) (File c) fs"
    and "cp_target fs s d \<noteq> s"
    and "cp_target fs s d \<noteq> []"
    and "stat fs (cp_target fs s d) \<noteq> Some Dir"
    and "stat fs (butlast (cp_target fs s d)) = Some Dir"
proof -
  from assms obtain c where c: "stat fs s = Some (File c)"
    by (auto simp: plain_copy_def split: option.splits inode.splits)
  with assms have rest: "fs' = AList.update (cp_target fs s d) (File c) fs"
    "cp_target fs s d \<noteq> s" "stat fs (cp_target fs s d) \<noteq> Some Dir"
    "stat fs (butlast (cp_target fs s d)) = Some Dir"
    by (auto simp: plain_copy_def Let_def split: if_splits)
  from rest(3) have "cp_target fs s d \<noteq> []" by (auto simp: stat_def)
  with c rest that show thesis by blast
qed

lemma plain_copy_stat:
  assumes "plain_copy fs s d = Inr fs'"
  shows "stat fs' q = (if q = cp_target fs s d then stat fs s else stat fs q)"
  using assms by (elim plain_copy_result) (simp add: stat_update)

lemma plain_copy_dir:
  assumes "plain_copy fs s d = Inr fs'"
  shows "stat fs' q = Some Dir \<longleftrightarrow> stat fs q = Some Dir"
  using assms by (elim plain_copy_result) (auto simp: stat_update)

lemma plain_copy_link:
  assumes "plain_copy fs s d = Inr fs'" and "\<not> is_link fs q"
  shows "\<not> is_link fs' q"
  using assms by (elim plain_copy_result) (auto simp: stat_update is_link_def)

lemma plain_copy_target:
  assumes "plain_copy fs s d = Inr fs'"
  shows "cp_target fs' s' d' = cp_target fs s' d'"
  using plain_copy_dir[OF assms] by (simp add: cp_target_def)

lemma plain_copy_settles:
  assumes "plain_copy fs s d = Inr fs'"
  shows "settled fs' (s, d)"
  using assms plain_copy_target[OF assms, of s d]
  by (elim plain_copy_result) (auto simp: settled_def Let_def stat_update)

lemma settled_fixed:
  assumes "settled fs (s, d)"
  shows "plain_copy fs s d = Inr fs"
proof -
  let ?t = "cp_target fs s d"
  from assms obtain c where c: "stat fs s = Some (File c)" "stat fs ?t = Some (File c)"
    and t: "?t \<noteq> s" "stat fs (butlast ?t) = Some Dir"
    by (auto simp: settled_def Let_def)
  from c(2) have "map_of fs ?t = Some (File c)"
    by (auto simp: stat_def split: if_splits)
  then have "AList.update ?t (File c) fs = fs"
    by (rule update_triv)
  with c t show ?thesis
    by (simp add: plain_copy_def Let_def)
qed

lemma settled_kept:
  assumes "settled fs sd" and "plain_copy fs s' d' = Inr fs'"
    and "targets (s', d') \<inter> targets sd = {}" and "fst sd \<notin> targets (s', d')"
  shows "settled fs' sd"
proof -
  let ?t = "cp_target fs (fst sd) (snd sd)"
  have t': "cp_target fs s' d' \<noteq> ?t" "cp_target fs s' d' \<noteq> fst sd"
    using assms(3,4) cp_target_in[of fs s' d'] cp_target_in[of fs "fst sd" "snd sd"]
    by auto
  from assms(1) have b: "stat fs (butlast ?t) = Some Dir"
    by (simp add: settled_def Let_def)
  have "stat fs' (butlast ?t) = Some Dir"
    using plain_copy_dir[OF assms(2)] b by simp
  moreover have "stat fs' ?t = stat fs ?t" "stat fs' (fst sd) = stat fs (fst sd)"
    using plain_copy_stat[OF assms(2)] t' by auto
  ultimately show ?thesis
    using assms(1) plain_copy_target[OF assms(2), of "fst sd" "snd sd"]
    by (simp add: settled_def Let_def)
qed

lemma copies_Cons_None:
  assumes "copies (sd # ps) fs = (None, fs')"
  obtains f where "plain_copy fs (fst sd) (snd sd) = Inr f" and "copies ps f = (None, fs')"
  using assms by (auto split: sum.splits)

lemma copies_dir:
  "stat (snd (copies ps fs)) q = Some Dir \<longleftrightarrow> stat fs q = Some Dir"
proof (induction ps arbitrary: fs)
  case Nil
  then show ?case by simp
next
  case (Cons sd ps)
  show ?case
  proof (cases "plain_copy fs (fst sd) (snd sd)")
    case (Inl e)
    then show ?thesis by simp
  next
    case (Inr f)
    with Cons.IH[of f] plain_copy_dir[OF Inr] show ?thesis by simp
  qed
qed

lemma copies_link:
  "\<not> is_link fs q \<Longrightarrow> \<not> is_link (snd (copies ps fs)) q"
proof (induction ps arbitrary: fs)
  case Nil
  then show ?case by simp
next
  case (Cons sd ps)
  show ?case
  proof (cases "plain_copy fs (fst sd) (snd sd)")
    case (Inl e)
    with Cons.prems show ?thesis by simp
  next
    case (Inr f)
    from Cons.IH[OF plain_copy_link[OF Inr Cons.prems]] Inr show ?thesis by simp
  qed
qed

lemma copies_keep_settled:
  assumes "copies ps fs = (None, fs')" and "settled fs sd"
    and "\<forall>b \<in> set ps. targets b \<inter> targets sd = {} \<and> fst sd \<notin> targets b"
  shows "settled fs' sd"
  using assms
proof (induction ps arbitrary: fs)
  case Nil
  then show ?case by simp
next
  case (Cons b ps)
  from Cons.prems(1) obtain f where f: "plain_copy fs (fst b) (snd b) = Inr f"
    and r: "copies ps f = (None, fs')" by (rule copies_Cons_None)
  have "settled f sd"
    using settled_kept[OF Cons.prems(2), of "fst b" "snd b" f] f Cons.prems(3) by simp
  with Cons.IH[OF r] Cons.prems(3) show ?case by simp
qed

lemma copies_settle:
  assumes "copies ps fs = (None, fs')" and "apart ps"
    and "\<forall>a \<in> set ps. \<forall>b \<in> set ps. fst a \<notin> targets b"
  shows "\<forall>sd \<in> set ps. settled fs' sd"
  using assms
proof (induction ps arbitrary: fs)
  case Nil
  then show ?case by simp
next
  case (Cons a ps)
  from Cons.prems(1) obtain f where f: "plain_copy fs (fst a) (snd a) = Inr f"
    and r: "copies ps f = (None, fs')" by (rule copies_Cons_None)
  have "settled f a" using plain_copy_settles[of fs "fst a" "snd a" f] f by simp
  moreover have "\<forall>b \<in> set ps. targets b \<inter> targets a = {} \<and> fst a \<notin> targets b"
    using Cons.prems(2,3) by auto
  ultimately have "settled fs' a" using copies_keep_settled[OF r] by blast
  moreover have "\<forall>sd \<in> set ps. settled fs' sd"
    using Cons.IH[OF r] Cons.prems(2,3) by simp
  ultimately show ?case by simp
qed

lemma copies_fixed:
  "\<forall>sd \<in> set ps. settled fs sd \<Longrightarrow> copies ps fs = (None, fs)"
  by (induction ps) (auto simp: settled_fixed)

lemma copies_sources:
  assumes "\<forall>b \<in> set ps. s \<notin> targets b"
  shows "stat (snd (copies ps fs)) s = stat fs s"
  using assms
proof (induction ps arbitrary: fs)
  case Nil
  then show ?case by simp
next
  case (Cons b ps)
  show ?case
  proof (cases "plain_copy fs (fst b) (snd b)")
    case (Inl e)
    then show ?thesis by simp
  next
    case (Inr f)
    have "cp_target fs (fst b) (snd b) \<noteq> s"
      using Cons.prems cp_target_in[of fs "fst b" "snd b"] by auto
    then have "stat f s = stat fs s" using plain_copy_stat[OF Inr] by simp
    with Cons.IH[of f] Cons.prems Inr show ?thesis by simp
  qed
qed

lemma plain_copy_no_dest_dir:
  "stat fs (butlast d) = Some Dir \<Longrightarrow> plain_copy fs s d \<noteq> Inl NoDestDir"
  by (auto simp: plain_copy_def cp_target_def Let_def split: option.splits inode.splits)

lemma plain_copy_errors:
  "plain_copy fs s d = Inl e \<Longrightarrow>
   e = NoSuchFile \<or> e = OmitDirectory \<or> e = OverwriteDir \<or> e = NoDestDir \<or>
   (e = SameFile \<and> s \<in> targets (s, d))"
  using cp_target_in[of fs s d]
  by (auto simp: plain_copy_def Let_def split: option.splits inode.splits if_splits)

lemma copies_errors:
  assumes "copies ps fs = (Some e, fs')"
    and "\<forall>sd \<in> set ps. stat fs (butlast (snd sd)) = Some Dir"
    and "\<forall>a \<in> set ps. fst a \<notin> targets a"
  shows "e = NoSuchFile \<or> e = OmitDirectory \<or> e = OverwriteDir"
  using assms
proof (induction ps arbitrary: fs)
  case Nil
  then show ?case by simp
next
  case (Cons a ps)
  show ?case
  proof (cases "plain_copy fs (fst a) (snd a)")
    case (Inl e')
    with Cons.prems(1) have e: "e' = e" by simp
    from plain_copy_errors[OF Inl] plain_copy_no_dest_dir[of fs "snd a" "fst a"] Inl Cons.prems(2,3)
    show ?thesis unfolding e by auto
  next
    case (Inr f)
    have "\<forall>sd \<in> set ps. stat f (butlast (snd sd)) = Some Dir"
      using Cons.prems(2) plain_copy_dir[OF Inr] by simp
    from Cons.IH[OF _ this] Inr Cons.prems(1,3) show ?thesis by simp
  qed
qed

lemma copies_ok:
  assumes "\<forall>sd \<in> set ps. (\<exists>c. stat fs (fst sd) = Some (File c)) \<and>
             stat fs (butlast (cp_target fs (fst sd) (snd sd))) = Some Dir \<and>
             stat fs (cp_target fs (fst sd) (snd sd)) \<noteq> Some Dir"
    and "\<forall>a \<in> set ps. \<forall>b \<in> set ps. fst a \<notin> targets b"
  shows "fst (copies ps fs) = None"
  using assms
proof (induction ps arbitrary: fs)
  case Nil
  then show ?case by simp
next
  case (Cons a ps)
  let ?t = "cp_target fs (fst a) (snd a)"
  from Cons.prems(1) obtain c where c: "stat fs (fst a) = Some (File c)"
    and d: "stat fs (butlast ?t) = Some Dir" "stat fs ?t \<noteq> Some Dir" by auto
  from Cons.prems(2) cp_target_in[of fs "fst a" "snd a"] have ne: "?t \<noteq> fst a" by auto
  from c d ne have f: "plain_copy fs (fst a) (snd a) = Inr (AList.update ?t (File c) fs)"
    by (simp add: plain_copy_def Let_def)
  let ?f = "AList.update ?t (File c) fs"
  have "(\<exists>x. stat ?f (fst sd) = Some (File x)) \<and>
          stat ?f (butlast (cp_target ?f (fst sd) (snd sd))) = Some Dir \<and>
          stat ?f (cp_target ?f (fst sd) (snd sd)) \<noteq> Some Dir"
    if sd: "sd \<in> set ps" for sd
  proof -
    from sd Cons.prems(1) obtain x where x: "stat fs (fst sd) = Some (File x)"
      and y: "stat fs (butlast (cp_target fs (fst sd) (snd sd))) = Some Dir"
        "stat fs (cp_target fs (fst sd) (snd sd)) \<noteq> Some Dir" by auto
    from sd Cons.prems(2) cp_target_in[of fs "fst a" "snd a"] have "fst sd \<noteq> ?t" by auto
    with x plain_copy_stat[OF f, of "fst sd"]
    have "stat ?f (fst sd) = Some (File x)" by simp
    with y plain_copy_dir[OF f] plain_copy_target[OF f, of "fst sd" "snd sd"]
    show ?thesis by simp
  qed
  then have "\<forall>sd \<in> set ps.
          (\<exists>x. stat ?f (fst sd) = Some (File x)) \<and>
          stat ?f (butlast (cp_target ?f (fst sd) (snd sd))) = Some Dir \<and>
          stat ?f (cp_target ?f (fst sd) (snd sd)) \<noteq> Some Dir" by blast
  moreover have "\<forall>a \<in> set ps. \<forall>b \<in> set ps. fst a \<notin> targets b"
    using Cons.prems(2) by simp
  ultimately have "fst (copies ps ?f) = None"
    using Cons.IH by blast
  with f show ?case by simp
qed

text \<open>Where the names are ordinary, the invocation directory is what its path says, the
  directories above the destination are there and no link is at the source, at the
  destination or inside it, \<^verbatim>\<open>cp\<close> is \<open>plain_copy\<close>.\<close>

lemma basename_plain: "split_path s = [s] \<Longrightarrow> s \<noteq> [] \<Longrightarrow> basename s = s"
  by (simp add: basename_def)

lemma cp_plain:
  assumes home: "at_home fs root"
    and s: "take 1 s \<noteq> ''/''" "split_path s = [s]" "ordinary s"
    and d: "take 1 d \<noteq> ''/''" "d \<noteq> []" "split_path d = ds @ [c]" "list_all ordinary ds"
      "ordinary c"
    and dirs: "\<forall>q \<in> set (ways root ds). stat fs q = Some Dir"
    and links: "\<not> is_link fs (root @ [s])" "\<not> is_link fs (root @ ds @ [c])"
      "\<not> is_link fs (root @ ds @ [c, s])"
  shows "cp fs root s d = plain_copy fs (root @ [s]) (root @ ds @ [c])"
proof -
  let ?S = "root @ [s]" and ?D = "root @ ds @ [c]"
  from s(3) have sne: "s \<noteq> []" by (simp add: ordinary_def)
  have ls: "locate fs True root s = Inr ?S"
    using namei_home[OF home, of links_max True "[s]"] namei_last[OF s(3) links(1), of links_max True]
      s(1,2) sne by (simp add: locate_def names_def)
  have nd: "namei links_max fs follow [] (root @ ds @ [c]) = Inr ?D" for follow
    using namei_home[OF home, of links_max follow "ds @ [c]"]
      namei_dirs[OF d(4) dirs, of links_max follow "[c]"]
      namei_last[OF d(5), of fs "root @ ds" links_max follow] links(2)
    by simp
  have ld: "locate fs True root d = Inr ?D"
    using nd[of True] d(1,2,3) by (simp add: locate_def names_def)
  have nm: "names root d = root @ ds @ [c]"
    using d(1,3) by (simp add: names_def)
  have parent: "stat fs (root @ ds) = Some Dir"
  proof (cases "ds = []")
    case True
    with at_home_dir[OF home] show ?thesis by simp
  next
    case False
    from ways_last[OF False, of root] dirs show ?thesis by simp
  qed
  have inside: "namei links_max fs follow ?D [s] = Inr (?D @ [s])" for follow
    using namei_last[OF s(3), of fs ?D links_max follow] links(3) by simp
  have bn: "basename s = s" using s(2) sne by (rule basename_plain)
  show ?thesis
  proof (cases "stat fs ?S")
    case None
    with ls show ?thesis by (simp add: cp_def plain_copy_def)
  next
    case (Some n)
    show ?thesis
    proof (cases n)
      case Dir
      with Some ls show ?thesis by (simp add: cp_def plain_copy_def)
    next
      case (Link t)
      with Some ls show ?thesis by (simp add: cp_def plain_copy_def)
    next
      case (File x)
      show ?thesis
      proof (cases "stat fs ?D = Some Dir")
        case True
        then have t: "cp_target fs ?S ?D = ?D @ [s]" by (simp add: cp_target_def)
        have l: "landing fs ?D [basename s] = Inr (?D @ [s])"
          unfolding bn using links(3)
          by (simp add: landing_def inside is_link_def del: namei.simps
              split: option.splits inode.splits)
        have b: "butlast (?D @ [s]) = ?D" by (simp add: butlast_append)
        from Some File ls ld True l t b show ?thesis
          by (simp add: cp_def plain_copy_def Let_def del: append_assoc)
      next
        case False
        then have t: "cp_target fs ?S ?D = ?D" by (simp add: cp_target_def)
        have l: "landing fs [] (names root d) = Inr ?D"
          unfolding nm using links(2)
          by (simp add: landing_def nd is_link_def del: namei.simps
              split: option.splits inode.splits)
        have b: "butlast ?D = root @ ds" by (simp add: butlast_append)
        from Some File ls ld False l t b parent show ?thesis
          by (simp add: cp_def plain_copy_def Let_def)
      qed
    qed
  qed
qed

subsection \<open>The lines of \<^verbatim>\<open>copy-files\<close>\<close>

lemma safe_name_not_option: "safe_name n \<Longrightarrow> \<not> is_option (n @ r)"
  by (cases n) (auto simp: is_option_def safe_name_def)

lemma is_option_Cons: "is_option (c # cs) = (c = CHR ''-'' \<and> cs \<noteq> [])"
  by (cases cs) (auto simp: is_option_def)

lemma not_option: "take 1 s \<noteq> ''-'' \<Longrightarrow> \<not> is_option s"
  by (simp add: is_option_def)

lemma coreutil_mkdir:
  "\<not> is_option d \<Longrightarrow> coreutil [''mkdir'', ''-p'', d] cwd fs = Some (mkdir fs cwd d)"
  by (simp add: coreutil_def)

lemma coreutil_cp:
  "\<not> is_option s \<Longrightarrow> \<not> is_option d \<Longrightarrow>
   coreutil [''cp'', s, d] cwd fs = Some (done_or fs (cp fs cwd s d))"
  by (simp add: coreutil_def)

lemma lines_append:
  "lines root (as @ bs) fs =
     (case lines root as fs of (None, f) \<Rightarrow> lines root bs f | (Some e, f) \<Rightarrow> (Some e, f))"
  by (induction as arbitrary: fs) (auto split: option.splits prod.splits)

lemma run_lines:
  assumes "\<forall>a \<in> set as. \<forall>fs. coreutil a root fs \<noteq> None"
  shows "fst (run_recipe tools root (map Run as) w) = fst (lines root as (files w)) \<and>
         files (snd (run_recipe tools root (map Run as) w)) = snd (lines root as (files w)) \<and>
         reached (snd (run_recipe tools root (map Run as) w)) = reached w"
  using assms
proof (induction as arbitrary: w)
  case Nil
  then show ?case by simp
next
  case (Cons a as)
  from Cons.prems have "coreutil a root (files w) \<noteq> None" by simp
  then obtain st f where c: "coreutil a root (files w) = Some (st, f)"
    by (cases "coreutil a root (files w)") auto
  let ?w = "w\<lparr>invoked := invoked w @ [(root, a)], files := f\<rparr>"
  have t: "run_tool tools a root w = (st, ?w)"
    using c by (simp add: run_tool_def)
  show ?case
  proof (cases st)
    case None
    from Cons.prems have "\<forall>a \<in> set as. \<forall>fs. coreutil a root fs \<noteq> None" by simp
    from Cons.IH[OF this, of ?w] t c None show ?thesis by simp
  next
    case (Some e)
    with t c show ?thesis by simp
  qed
qed

lemma plain_mkdir_home:
  assumes "plain_mkdir fs cur cs = (None, f)" and "at_home fs root"
  shows "at_home f root"
  using assms(2) plain_mkdir_stat[OF assms(1)]
  by (simp add: at_home_def list_all_iff)

lemma plain_mkdir_link:
  assumes "plain_mkdir fs cur cs = (None, f)" and "\<not> is_link fs q"
  shows "\<not> is_link f q"
  using assms(2) plain_mkdir_stat[OF assms(1), of q]
  by (simp add: is_link_def split: if_splits)

lemma split_dir_arg:
  assumes "safe_name n" and "CHR ''/'' \<notin> set d"
  shows "split_path (n @ ''/src/'' @ d) = [n, ''src'', d]"
proof -
  have "split_path (n @ CHR ''/'' # (''src'' @ CHR ''/'' # d)) = n # split_path (''src'' @ CHR ''/'' # d)"
    using safe_name_no_slash[OF assms(1)] by (rule split_path_append)
  moreover have "split_path (''src'' @ CHR ''/'' # d) = ''src'' # split_path d"
    by (rule split_path_append) simp
  ultimately show ?thesis using split_path_plain[OF assms(2)] by simp
qed

lemma split_pair_arg:
  assumes "safe_name n"
  shows "split_path (n @ ''/src/'' @ d) = n # ''src'' # split_path d"
proof -
  have "split_path (n @ CHR ''/'' # (''src'' @ CHR ''/'' # d)) = n # split_path (''src'' @ CHR ''/'' # d)"
    using safe_name_no_slash[OF assms(1)] by (rule split_path_append)
  moreover have "split_path (''src'' @ CHR ''/'' # d) = ''src'' # split_path d"
    by (rule split_path_append) simp
  ultimately show ?thesis by simp
qed

lemma mkdir_lines:
  assumes "safe_name n" and "\<forall>d \<in> set ds. CHR ''/'' \<notin> set d \<and> ordinary d"
    and "at_home fs root"
    and "\<forall>d \<in> set ds. \<forall>q \<in> set (ways root [n, ''src'', d]). \<not> is_link fs q"
  shows "lines root (map (\<lambda>d. [''mkdir'', ''-p'', n @ ''/src/'' @ d]) ds) fs =
         mkdirs root (map (\<lambda>d. [n, ''src'', d]) ds) fs"
  using assms(2,3,4)
proof (induction ds arbitrary: fs)
  case Nil
  then show ?case by simp
next
  case (Cons d ds)
  from Cons.prems(1) have d: "CHR ''/'' \<notin> set d" "ordinary d" by simp_all
  have sp: "split_path (n @ ''/src/'' @ d) = [n, ''src'', d]"
    using assms(1) d(1) by (rule split_dir_arg)
  have ord: "list_all ordinary [n, ''src'', d]"
    using safe_name_ordinary[OF assms(1)] d(2) by (simp add: ordinary_def)
  have l: "\<forall>q \<in> set (ways root [n, ''src'', d]). \<not> is_link fs q"
    using Cons.prems(3) by simp
  have m: "mkdir fs root (n @ ''/src/'' @ d) = plain_mkdir fs root [n, ''src'', d]"
    using Cons.prems(2) safe_name_first[OF assms(1)] sp ord l by (rule mkdir_plain)
  have c: "coreutil [''mkdir'', ''-p'', n @ ''/src/'' @ d] root fs =
      Some (plain_mkdir fs root [n, ''src'', d])"
    unfolding coreutil_mkdir[OF safe_name_not_option[OF assms(1)]] m ..
  obtain st f where f: "plain_mkdir fs root [n, ''src'', d] = (st, f)"
    by (cases "plain_mkdir fs root [n, ''src'', d]")
  show ?case
  proof (cases st)
    case None
    have 1: "\<forall>d \<in> set ds. CHR ''/'' \<notin> set d \<and> ordinary d" using Cons.prems(1) by simp
    have 2: "at_home f root" using f Cons.prems(2) unfolding None by (rule plain_mkdir_home)
    have 3: "\<forall>d \<in> set ds. \<forall>q \<in> set (ways root [n, ''src'', d]). \<not> is_link f q"
      using Cons.prems(3) plain_mkdir_link[OF f[unfolded None]] by simp
    from Cons.IH[OF 1 2 3] c f None show ?thesis by (simp del: plain_mkdir.simps)
  next
    case (Some e)
    with c f show ?thesis by (simp del: plain_mkdir.simps)
  qed
qed

lemma plain_copy_home:
  assumes "plain_copy fs s d = Inr f" and "at_home fs root"
  shows "at_home f root"
  using assms(2) plain_copy_dir[OF assms(1)]
  by (simp add: at_home_def list_all_iff)

lemma cp_lines:
  assumes "safe_name n"
    and "\<forall>(s, d) \<in> set ps. CHR ''/'' \<notin> set s \<and> ordinary s \<and> take 1 s \<noteq> ''-'' \<and>
           list_all ordinary (split_path d)"
    and "at_home fs root"
    and "\<forall>(s, d) \<in> set ps.
           (\<forall>q \<in> set (ways root (n # ''src'' # butlast (split_path d))). stat fs q = Some Dir) \<and>
           \<not> is_link fs (root @ [s]) \<and>
           \<not> is_link fs (root @ n # ''src'' # split_path d) \<and>
           \<not> is_link fs (root @ n # ''src'' # split_path d @ [s])"
  shows "lines root (map (\<lambda>(s, d). [''cp'', s, n @ ''/src/'' @ d]) ps) fs =
         copies (map (\<lambda>(s, d). (root @ [s], root @ n # ''src'' # split_path d)) ps) fs"
  using assms(2,3,4)
proof (induction ps arbitrary: fs)
  case Nil
  then show ?case by simp
next
  case (Cons sd ps)
  obtain s d where sd: "sd = (s, d)" by (cases sd)
  let ?sp = "split_path d"
  let ?ds = "n # ''src'' # butlast ?sp" and ?c = "last ?sp"
  from Cons.prems(1) sd have s: "CHR ''/'' \<notin> set s" "ordinary s" "take 1 s \<noteq> ''-''"
    and o: "list_all ordinary ?sp" by simp_all
  from s(2) have sne: "s \<noteq> []" by (simp add: ordinary_def)
  have s1: "take 1 s \<noteq> ''/''" using s(1) sne by (cases s) auto
  have s2: "split_path s = [s]" using s(1) by (rule split_path_plain)
  have d1: "take 1 (n @ ''/src/'' @ d) \<noteq> ''/''" using assms(1) by (rule safe_name_first)
  have d2: "n @ ''/src/'' @ d \<noteq> []" by simp
  have bl: "butlast ?sp @ [?c] = ?sp" using split_path_nonempty[of d] by simp
  have d3: "split_path (n @ ''/src/'' @ d) = ?ds @ [?c]"
    using split_pair_arg[OF assms(1), of d] bl by simp
  have o1: "list_all ordinary (butlast ?sp)" and o2: "ordinary ?c"
    using o split_path_nonempty[of d]
    by (auto simp: list_all_iff dest: in_set_butlastD)
  have d4: "list_all ordinary ?ds"
    using safe_name_ordinary[OF assms(1)] o1 by (simp add: ordinary_def)
  from Cons.prems(3) sd have dirs: "\<forall>q \<in> set (ways root ?ds). stat fs q = Some Dir"
    and l1: "\<not> is_link fs (root @ [s])"
    and l2: "\<not> is_link fs (root @ n # ''src'' # ?sp)"
    and l3: "\<not> is_link fs (root @ n # ''src'' # ?sp @ [s])" by simp_all
  have e: "root @ ?ds @ [?c] = root @ n # ''src'' # ?sp" using bl by simp
  have e3: "root @ ?ds @ [?c, s] = root @ n # ''src'' # ?sp @ [s]"
    using bl by (metis append_Cons append_Nil append_assoc)
  have cp: "cp fs root s (n @ ''/src/'' @ d) = plain_copy fs (root @ [s]) (root @ ?ds @ [?c])"
    using Cons.prems(2) s1 s2 s(2) d1 d2 d3 d4 o2 dirs l1 l2[folded e] l3[folded e3]
    by (rule cp_plain)
  have c: "coreutil [''cp'', s, n @ ''/src/'' @ d] root fs =
      Some (done_or fs (plain_copy fs (root @ [s]) (root @ n # ''src'' # ?sp)))"
    unfolding coreutil_cp[OF not_option[OF s(3)] safe_name_not_option[OF assms(1)]] cp e ..
  show ?case
  proof (cases "plain_copy fs (root @ [s]) (root @ n # ''src'' # ?sp)")
    case (Inl err)
    with c sd show ?thesis by (simp add: done_or_def)
  next
    case (Inr f)
    have 1: "\<forall>(s, d) \<in> set ps. CHR ''/'' \<notin> set s \<and> ordinary s \<and> take 1 s \<noteq> ''-'' \<and>
           list_all ordinary (split_path d)" using Cons.prems(1) by simp
    have 2: "at_home f root" using Inr Cons.prems(2) by (rule plain_copy_home)
    have 3: "\<forall>(s, d) \<in> set ps.
           (\<forall>q \<in> set (ways root (n # ''src'' # butlast (split_path d))). stat f q = Some Dir) \<and>
           \<not> is_link f (root @ [s]) \<and>
           \<not> is_link f (root @ n # ''src'' # split_path d) \<and>
           \<not> is_link f (root @ n # ''src'' # split_path d @ [s])"
      using Cons.prems(3) plain_copy_dir[OF Inr] plain_copy_link[OF Inr]
      by (auto simp del: ways.simps)
    from Cons.IH[OF 1 2 3] c sd Inr show ?thesis by (simp add: done_or_def)
  qed
qed

subsection \<open>The rule \<^verbatim>\<open>copy-files\<close>\<close>

lemma rule_targets:
  "target help_rule = ''help''"
  "target (create_react_app v p) = ''create-react-app''"
  "target (configure_prettier p) = ''configure-prettier''"
  "target (install_bootstrap v p) = ''install-bootstrap''"
  "target (install_redux v p) = ''install-redux''"
  "target (install_router v p) = ''install-router''"
  "target (install_styled_components v p) = ''install-styled-components''"
  "target (copy_files v p) = ''copy-files''"
  "target (git_commit v p) = ''git-commit''"
  "target (build v) = ''build''"
  by (simp_all add: help_rule_def create_react_app_def configure_prettier_def
      install_bootstrap_def install_redux_def install_router_def
      install_styled_components_def copy_files_def git_commit_def build_def)

lemma rule_prereqs:
  "prereqs help_rule = []"
  "prereqs (create_react_app v p) = []"
  "prereqs (configure_prettier p) = []"
  "prereqs (install_bootstrap v p) = []"
  "prereqs (install_redux v p) = []"
  "prereqs (install_router v p) = []"
  "prereqs (install_styled_components v p) = []"
  "prereqs (copy_files v p) = []"
  "prereqs (git_commit v p) = []"
  "prereqs (build v) = build_steps v"
  by (simp_all add: help_rule_def create_react_app_def configure_prettier_def
      install_bootstrap_def install_redux_def install_router_def
      install_styled_components_def copy_files_def git_commit_def build_def)

lemma rule_for_makefile:
  "rule_for (makefile v p) ''create-react-app'' = Some (create_react_app v p)"
  "rule_for (makefile v p) ''configure-prettier'' = Some (configure_prettier p)"
  "rule_for (makefile v p) ''install-bootstrap'' = Some (install_bootstrap v p)"
  "rule_for (makefile v p) ''install-redux'' = Some (install_redux v p)"
  "rule_for (makefile v p) ''install-router'' = Some (install_router v p)"
  "rule_for (makefile v p) ''install-styled-components'' = Some (install_styled_components v p)"
  "rule_for (makefile v p) ''copy-files'' = Some (copy_files v p)"
  "rule_for (makefile v p) ''git-commit'' = Some (git_commit v p)"
  "rule_for (makefile v p) ''build'' = Some (build v)"
  by (simp_all add: rule_for_def makefile_def rule_targets)

text \<open>A target without prerequisites, asked for by name: make leaves its recipe out if
  the name is present, and runs it otherwise.\<close>

lemma make_step:
  "rule_for mk t = Some r \<Longrightarrow> prereqs r = [] \<Longrightarrow>
   make tools root mk t w =
     (if present (files w) root t then (Done, w) else run_rule tools root r w)"
  by (simp add: make_def)

lemma make_copy_files:
  "make tools root (makefile v p) ''copy-files'' w =
     (if present (files w) root ''copy-files'' then (Done, w)
      else run_rule tools root (copy_files v p) w)"
  by (simp add: make_step rule_for_makefile rule_prereqs)

lemma copy_files_recipe: "recipe (copy_files v p) = map Run (mkdir_args v p @ cp_args v p)"
  by (cases v) (simp_all add: copy_files_def mkdir_args_def cp_args_def copy_dirs_def
      copy_pairs_def)

lemma copy_args_core:
  assumes "safe_name (NAME p)"
  shows "\<forall>a \<in> set (mkdir_args v p @ cp_args v p). \<forall>fs. coreutil a root fs \<noteq> None"
  using safe_name_not_option[OF assms]
  by (cases v)
     (simp_all add: mkdir_args_def cp_args_def copy_dirs_def copy_pairs_def coreutil_def
        is_option_Cons)

lemma copy_dirs_plain: "\<forall>d \<in> set (copy_dirs v). CHR ''/'' \<notin> set d \<and> ordinary d"
  by (cases v) (simp_all add: copy_dirs_def ordinary_def)

lemma copy_pairs_plain:
  "\<forall>(s, d) \<in> set (copy_pairs v). CHR ''/'' \<notin> set s \<and> ordinary s \<and> take 1 s \<noteq> ''-'' \<and>
     list_all ordinary (split_path d)"
  by (cases v) (simp_all add: copy_pairs_def ordinary_def)

lemma dir_places:
  assumes "d \<in> set (copy_dirs v)" and "q \<in> set (ways root [NAME p, ''src'', d])"
  shows "q \<in> set (places v root p)"
  using assms by (auto simp: places_def)

lemma pair_places:
  assumes "(s, d) \<in> set (copy_pairs v)"
  shows "root @ [s] \<in> set (places v root p)"
    and "root @ NAME p # ''src'' # split_path d \<in> set (places v root p)"
    and "root @ NAME p # ''src'' # split_path d @ [s] \<in> set (places v root p)"
  using assms by (force simp: places_def)+

lemma pair_above:
  assumes "(s, d) \<in> set (copy_pairs v)"
    and "q \<in> set (ways root (NAME p # ''src'' # butlast (split_path d)))"
  shows "q \<in> (\<Union>d \<in> set (dir_paths v p). set (ways root d))"
  using assms by (cases v) (auto simp: copy_pairs_def dir_paths_def copy_dirs_def)

lemma pair_paths_apart:
  "apart (pair_paths v root p)"
  "\<forall>a \<in> set (pair_paths v root p). \<forall>b \<in> set (pair_paths v root p). fst a \<notin> targets b"
  by (cases v; simp add: pair_paths_def copy_pairs_def targets_def)+

lemma pair_parents:
  assumes "sd \<in> set (pair_paths v root p)"
  shows "butlast (snd sd) \<in> (\<Union>d \<in> set (dir_paths v p). set (ways root d))"
  using assms
  by (cases v) (auto simp: pair_paths_def dir_paths_def copy_pairs_def copy_dirs_def
      butlast_append)

lemma pair_dst_fresh:
  assumes "sd \<in> set (pair_paths v root p)" and "t \<in> targets sd"
  shows "t \<notin> (\<Union>d \<in> set (dir_paths v p). set (ways root d))"
  using assms
  by (cases v) (auto simp: pair_paths_def dir_paths_def copy_pairs_def copy_dirs_def
      targets_def)

lemma mkdirs_home:
  assumes "mkdirs base ds fs = (None, f)" and "at_home fs root"
  shows "at_home f root"
  using assms(2) mkdirs_stat[OF assms(1)]
  by (simp add: at_home_def list_all_iff)

lemma mkdirs_link:
  assumes "mkdirs base ds fs = (None, f)" and "\<not> is_link fs q"
  shows "\<not> is_link f q"
  using assms(2) mkdirs_stat[OF assms(1), of q]
  by (simp add: is_link_def split: if_splits)

text \<open>From an invocation directory that is what its path says, with a plain project name
  and no link at the places the step names, the lines of \<^verbatim>\<open>copy-files\<close> do to the files
  what \<open>copy_result\<close> says.\<close>

lemma copy_files_lines:
  assumes "safe_name (NAME p)" and "at_home fs root" and "linkfree fs (places v root p)"
  shows "lines root (mkdir_args v p @ cp_args v p) fs = copy_result v root p fs"
proof -
  have free: "\<not> is_link fs q" if "q \<in> set (places v root p)" for q
    using assms(3) that by (simp add: linkfree_def list_all_iff)
  have "\<forall>d \<in> set (copy_dirs v). \<forall>q \<in> set (ways root [NAME p, ''src'', d]). \<not> is_link fs q"
    using free dir_places[of _ v _ root p] by blast
  from mkdir_lines[OF assms(1) copy_dirs_plain assms(2) this]
  have m: "lines root (mkdir_args v p) fs = mkdirs root (dir_paths v p) fs"
    by (simp add: mkdir_args_def dir_paths_def comp_def)
  obtain st f where f: "mkdirs root (dir_paths v p) fs = (st, f)"
    by (cases "mkdirs root (dir_paths v p) fs")
  show ?thesis
  proof (cases st)
    case (Some e)
    with m f show ?thesis by (simp add: lines_append copy_result_def)
  next
    case None
    note f = f[unfolded None]
    have home: "at_home f root" using f assms(2) by (rule mkdirs_home)
    have "(\<forall>q \<in> set (ways root (NAME p # ''src'' # butlast (split_path d))). stat f q = Some Dir) \<and>
           \<not> is_link f (root @ [s]) \<and>
           \<not> is_link f (root @ NAME p # ''src'' # split_path d) \<and>
           \<not> is_link f (root @ NAME p # ''src'' # split_path d @ [s])"
      if sd: "(s, d) \<in> set (copy_pairs v)" for s d
      using pair_above[OF sd, of _ root p] mkdirs_stat[OF f] pair_places[OF sd, of root p]
        free mkdirs_link[OF f]
      by (auto simp del: ways.simps)
    then have "\<forall>(s, d) \<in> set (copy_pairs v).
           (\<forall>q \<in> set (ways root (NAME p # ''src'' # butlast (split_path d))). stat f q = Some Dir) \<and>
           \<not> is_link f (root @ [s]) \<and>
           \<not> is_link f (root @ NAME p # ''src'' # split_path d) \<and>
           \<not> is_link f (root @ NAME p # ''src'' # split_path d @ [s])"
      by blast
    from cp_lines[OF assms(1) copy_pairs_plain home this]
    have "lines root (cp_args v p) f = copies (pair_paths v root p) f"
      by (simp add: cp_args_def pair_paths_def)
    with m f show ?thesis by (simp add: lines_append copy_result_def)
  qed
qed

lemma copy_files_run:
  assumes "safe_name (NAME p)" and "at_home (files w) root"
    and "linkfree (files w) (places v root p)"
  shows "fst (run_rule tools root (copy_files v p) w) =
           (case fst (copy_result v root p (files w)) of
              None \<Rightarrow> Done | Some e \<Rightarrow> Stopped ''copy-files'' e)"
    and "files (snd (run_rule tools root (copy_files v p) w)) =
           snd (copy_result v root p (files w))"
    and "reached (snd (run_rule tools root (copy_files v p) w)) = reached w"
  using run_lines[OF copy_args_core[OF assms(1), of v root], of tools w]
    copy_files_lines[OF assms]
  by (auto simp: run_rule_def copy_files_recipe rule_targets split: prod.splits option.splits)

subsection \<open>What the lines do\<close>

lemma copy_result_errors:
  "fst (copy_result v root p fs) = None \<or>
   fst (copy_result v root p fs) = Some NotADirectory \<or>
   fst (copy_result v root p fs) = Some NoSuchFile \<or>
   fst (copy_result v root p fs) = Some OmitDirectory \<or>
   fst (copy_result v root p fs) = Some OverwriteDir"
proof -
  obtain st f where f: "mkdirs root (dir_paths v p) fs = (st, f)"
    by (cases "mkdirs root (dir_paths v p) fs")
  show ?thesis
  proof (cases st)
    case (Some e)
    with f mkdirs_error[of root "dir_paths v p" fs e f] show ?thesis
      by (simp add: copy_result_def)
  next
    case None
    note f = f[unfolded None]
    obtain st' f' where c: "copies (pair_paths v root p) f = (st', f')"
      by (cases "copies (pair_paths v root p) f")
    show ?thesis
    proof (cases st')
      case None
      with f c show ?thesis by (simp add: copy_result_def)
    next
      case (Some e)
      have "\<forall>sd \<in> set (pair_paths v root p). stat f (butlast (snd sd)) = Some Dir"
        using mkdirs_stat[OF f] pair_parents[of _ v root p] by simp
      moreover have "\<forall>a \<in> set (pair_paths v root p). fst a \<notin> targets a"
        using pair_paths_apart(2)[of v root p] by blast
      ultimately have "e = NoSuchFile \<or> e = OmitDirectory \<or> e = OverwriteDir"
        using copies_errors[OF c[unfolded Some]] by blast
      with f c Some show ?thesis by (auto simp: copy_result_def)
    qed
  qed
qed

lemma copy_result_dirs:
  assumes "fst (copy_result v root p fs) \<noteq> Some NotADirectory"
    and "d \<in> set (copy_dirs v)" and "q \<in> set (ways root [NAME p, ''src'', d])"
  shows "stat (snd (copy_result v root p fs)) q = Some Dir"
proof -
  obtain st f where f: "mkdirs root (dir_paths v p) fs = (st, f)"
    by (cases "mkdirs root (dir_paths v p) fs")
  show ?thesis
  proof (cases st)
    case (Some e)
    with f mkdirs_error[of root "dir_paths v p" fs e f] assms(1) show ?thesis
      by (simp add: copy_result_def)
  next
    case None
    note f = f[unfolded None]
    from assms(2) have "[NAME p, ''src'', d] \<in> set (dir_paths v p)"
      by (simp add: dir_paths_def)
    from dir_paths_made[OF f this assms(3)] have "stat f q = Some Dir" .
    with copies_dir[of "pair_paths v root p" f q] f show ?thesis
      by (simp add: copy_result_def)
  qed
qed

lemma copy_result_done:
  assumes "fst (copy_result v root p fs) = None"
  obtains f where "mkdirs root (dir_paths v p) fs = (None, f)"
    and "copies (pair_paths v root p) f = (None, snd (copy_result v root p fs))"
proof -
  obtain st f where f: "mkdirs root (dir_paths v p) fs = (st, f)"
    by (cases "mkdirs root (dir_paths v p) fs")
  with assms have st: "st = None" by (cases st) (simp_all add: copy_result_def)
  with f have "copy_result v root p fs = copies (pair_paths v root p) f"
    by (simp add: copy_result_def)
  with assms have "copies (pair_paths v root p) f = (None, snd (copy_result v root p fs))"
    by (simp add: prod_eq_iff)
  with f st that show thesis by blast
qed

lemma copy_result_copies:
  assumes "fst (copy_result v root p fs) = None" and "(s, d) \<in> set (copy_pairs v)"
  shows "\<exists>c. stat fs (root @ [s]) = Some (File c) \<and>
             stat (snd (copy_result v root p fs)) (root @ [s]) = Some (File c) \<and>
             stat (snd (copy_result v root p fs))
               (if stat fs (root @ NAME p # ''src'' # split_path d) = Some Dir
                then root @ NAME p # ''src'' # split_path d @ [s]
                else root @ NAME p # ''src'' # split_path d) = Some (File c)"
proof -
  let ?S = "root @ [s]" and ?D = "root @ NAME p # ''src'' # split_path d"
  let ?fs' = "snd (copy_result v root p fs)"
  from assms(1) obtain f where f: "mkdirs root (dir_paths v p) fs = (None, f)"
    and c: "copies (pair_paths v root p) f = (None, ?fs')" by (rule copy_result_done)
  from assms(2) have mem: "(?S, ?D) \<in> set (pair_paths v root p)"
    by (force simp: pair_paths_def)
  from copies_settle[OF c pair_paths_apart] mem
  have "settled ?fs' (?S, ?D)" by blast
  then obtain x where x: "stat ?fs' ?S = Some (File x)"
    "stat ?fs' (cp_target ?fs' ?S ?D) = Some (File x)"
    by (auto simp: settled_def Let_def)
  have "\<forall>b \<in> set (pair_paths v root p). ?S \<notin> targets b"
    using pair_paths_apart(2)[of v root p] mem by force
  from copies_sources[OF this, of f] c x(1) have fS: "stat f ?S = Some (File x)" by simp
  with mkdirs_stat[OF f, of ?S] have wS: "stat fs ?S = Some (File x)"
    by (simp split: if_splits)
  have "?D \<in> targets (?S, ?D)" by (simp add: targets_def)
  from pair_dst_fresh[OF mem this] mkdirs_stat[OF f, of ?D]
  have "stat f ?D = stat fs ?D" by simp
  with copies_dir[of "pair_paths v root p" f ?D] c
  have "stat ?fs' ?D = Some Dir \<longleftrightarrow> stat fs ?D = Some Dir" by simp
  then have "cp_target ?fs' ?S ?D = (if stat fs ?D = Some Dir then ?D @ [s] else ?D)"
    by (simp add: cp_target_def)
  with x(2) wS x(1) show ?thesis by (simp split: if_splits)
qed

lemma copy_result_again:
  assumes "fst (copy_result v root p fs) = None"
  shows "copy_result v root p (snd (copy_result v root p fs)) =
         (None, snd (copy_result v root p fs))"
proof -
  let ?fs' = "snd (copy_result v root p fs)"
  from assms(1) obtain f where f: "mkdirs root (dir_paths v p) fs = (None, f)"
    and c: "copies (pair_paths v root p) f = (None, ?fs')" by (rule copy_result_done)
  have "\<forall>d \<in> set (dir_paths v p). \<forall>q \<in> set (ways root d). stat ?fs' q = Some Dir"
    using mkdirs_stat[OF f] copies_dir[of "pair_paths v root p" f] c by auto
  then have m: "mkdirs root (dir_paths v p) ?fs' = (None, ?fs')"
    by (rule mkdirs_fixed)
  have "\<forall>sd \<in> set (pair_paths v root p). settled ?fs' sd"
    using copies_settle[OF c pair_paths_apart] .
  then have "copies (pair_paths v root p) ?fs' = (None, ?fs')"
    by (rule copies_fixed)
  with m show ?thesis by (simp add: copy_result_def)
qed

lemma copy_result_home:
  assumes "fst (copy_result v root p fs) = None" and "at_home fs root"
  shows "at_home (snd (copy_result v root p fs)) root"
proof -
  from assms(1) obtain f where f: "mkdirs root (dir_paths v p) fs = (None, f)"
    and c: "copies (pair_paths v root p) f = (None, snd (copy_result v root p fs))"
    by (rule copy_result_done)
  from mkdirs_home[OF f assms(2)] copies_dir[of "pair_paths v root p" f] c show ?thesis
    by (simp add: at_home_def list_all_iff)
qed

lemma copy_result_links:
  assumes "fst (copy_result v root p fs) = None" and "linkfree fs ps"
  shows "linkfree (snd (copy_result v root p fs)) ps"
proof -
  from assms(1) obtain f where f: "mkdirs root (dir_paths v p) fs = (None, f)"
    and c: "copies (pair_paths v root p) f = (None, snd (copy_result v root p fs))"
    by (rule copy_result_done)
  have "\<not> is_link (snd (copy_result v root p fs)) q" if "\<not> is_link fs q" for q
    using copies_link[OF mkdirs_link[OF f that], of "pair_paths v root p"] c by simp
  with assms(2) show ?thesis by (simp add: linkfree_def list_all_iff)
qed

text \<open>The lines end well whenever nothing but a directory stands where a directory is to
  be, every template is a regular file, and no directory stands where a copy lands.\<close>

lemma copy_result_ok:
  assumes "\<forall>d \<in> set (copy_dirs v). \<forall>q \<in> set (ways root [NAME p, ''src'', d]).
             stat fs q = None \<or> stat fs q = Some Dir"
    and "\<forall>sd \<in> set (pair_paths v root p).
           (\<exists>c. stat fs (fst sd) = Some (File c)) \<and>
           stat fs (cp_target fs (fst sd) (snd sd)) \<noteq> Some Dir"
  shows "fst (copy_result v root p fs) = None"
proof -
  have w: "\<forall>d \<in> set (dir_paths v p). \<forall>q \<in> set (ways root d).
          stat fs q = None \<or> stat fs q = Some Dir"
    using assms(1) by (simp add: dir_paths_def)
  from mkdirs_ok[OF this] obtain f where f: "mkdirs root (dir_paths v p) fs = (None, f)"
    by (cases "mkdirs root (dir_paths v p) fs") auto
  have pre: "(\<exists>c. stat f (fst sd) = Some (File c)) \<and>
      stat f (butlast (cp_target f (fst sd) (snd sd))) = Some Dir \<and>
      stat f (cp_target f (fst sd) (snd sd)) \<noteq> Some Dir"
    if sd: "sd \<in> set (pair_paths v root p)" for sd
  proof -
    let ?made = "\<Union>d \<in> set (dir_paths v p). set (ways root d)"
    from sd assms(2) obtain c where c: "stat fs (fst sd) = Some (File c)"
      and d: "stat fs (cp_target fs (fst sd) (snd sd)) \<noteq> Some Dir" by auto
    have "fst sd \<notin> ?made"
    proof
      assume "fst sd \<in> ?made"
      then obtain d' where "d' \<in> set (dir_paths v p)" "fst sd \<in> set (ways root d')" by blast
      with w have "stat fs (fst sd) = None \<or> stat fs (fst sd) = Some Dir" by blast
      with c show False by simp
    qed
    with c mkdirs_stat[OF f, of "fst sd"] have 1: "stat f (fst sd) = Some (File c)" by simp
    have "snd sd \<in> targets sd" by (simp add: targets_def)
    from pair_dst_fresh[OF sd this] mkdirs_stat[OF f, of "snd sd"]
    have same: "stat f (snd sd) = stat fs (snd sd)" by simp
    then have t: "cp_target f (fst sd) (snd sd) = cp_target fs (fst sd) (snd sd)"
      by (simp add: cp_target_def)
    have "cp_target fs (fst sd) (snd sd) \<in> targets sd"
      using cp_target_in[of fs "fst sd" "snd sd"] by simp
    from pair_dst_fresh[OF sd this]
      mkdirs_stat[OF f, of "cp_target fs (fst sd) (snd sd)"] d
    have 3: "stat f (cp_target f (fst sd) (snd sd)) \<noteq> Some Dir" unfolding t by simp
    have 2: "stat f (butlast (cp_target f (fst sd) (snd sd))) = Some Dir"
    proof (cases "stat fs (snd sd) = Some Dir")
      case True
      with same show ?thesis by (simp add: cp_target_def butlast_append)
    next
      case False
      with same pair_parents[OF sd] mkdirs_stat[OF f, of "butlast (snd sd)"]
      show ?thesis by (simp add: cp_target_def)
    qed
    from 1 2 3 show ?thesis by blast
  qed
  have "\<forall>a \<in> set (pair_paths v root p). \<forall>b \<in> set (pair_paths v root p). fst a \<notin> targets b"
    using pair_paths_apart(2)[of v root p] .
  with copies_ok[of "pair_paths v root p" f] pre
  have "fst (copies (pair_paths v root p) f) = None" by blast
  with f show ?thesis by (simp add: copy_result_def)
qed

lemma unmade_stat: "unmade fs d \<Longrightarrow> under d q \<Longrightarrow> d \<noteq> [] \<Longrightarrow> stat fs q = None"
proof (rule ccontr)
  assume u: "unmade fs d" and q: "under d q" and d: "d \<noteq> []" and "stat fs q \<noteq> None"
  from q d have "q \<noteq> []" by (auto simp: under_def)
  with \<open>stat fs q \<noteq> None\<close> obtain x where "map_of fs q = Some x"
    by (auto simp: stat_def)
  then have "(q, x) \<in> set fs" by (rule map_of_SomeD)
  with u q show False by (auto simp: unmade_def list_ex_iff)
qed

lemma copy_result_fresh:
  assumes "unmade fs (root @ [NAME p])"
    and "\<forall>(s, d) \<in> set (copy_pairs v). \<exists>c. stat fs (root @ [s]) = Some (File c)"
  shows "fst (copy_result v root p fs) = None"
proof (rule copy_result_ok)
  have none: "stat fs (root @ NAME p # xs) = None" for xs
    using unmade_stat[OF assms(1), of "root @ NAME p # xs"] by (simp add: under_def)
  show "\<forall>d \<in> set (copy_dirs v). \<forall>q \<in> set (ways root [NAME p, ''src'', d]).
             stat fs q = None \<or> stat fs q = Some Dir"
    using none by simp
  show "\<forall>sd \<in> set (pair_paths v root p).
           (\<exists>c. stat fs (fst sd) = Some (File c)) \<and>
           stat fs (cp_target fs (fst sd) (snd sd)) \<noteq> Some Dir"
    using assms(2) none by (auto simp: pair_paths_def cp_target_def)
qed

section \<open>The programs a run starts\<close>

lemma run_tool_invoked:
  "run_tool tools argv cwd w = (st, w') \<Longrightarrow>
   invoked w' = invoked w @ [(cwd, argv)] \<and> reached w' = reached w"
  by (auto simp: run_tool_def Let_def split: option.splits sum.splits prod.splits)

lemma run_sh_calls:
  assumes "straight l" and "run_sh tools l cwd w = (st, cwd', w')"
  shows "\<exists>xs. invoked w' = invoked w @ xs \<and> reached w' = reached w \<and>
              prefix xs (snd (calls l cwd)) \<and>
              (st = None \<longrightarrow> xs = snd (calls l cwd) \<and> cwd' = fst (calls l cwd))"
  using assms
proof (induction l arbitrary: cwd w st cwd' w')
  case (Cd d)
  then show ?case by (auto split: if_splits)
next
  case (Echo s)
  then show ?case by auto
next
  case (Run argv)
  then show ?case by (auto split: prod.splits dest: run_tool_invoked)
next
  case (And a b)
  obtain st1 c1 w1 where a: "run_sh tools a cwd w = (st1, c1, w1)"
    by (cases "run_sh tools a cwd w") auto
  from And.prems(1) have sa: "straight a" and sb: "straight b" by simp_all
  from And.IH(1)[OF sa a] obtain xs where xs: "invoked w1 = invoked w @ xs"
    "reached w1 = reached w"
    "prefix xs (snd (calls a cwd))"
    "st1 = None \<longrightarrow> xs = snd (calls a cwd) \<and> c1 = fst (calls a cwd)" by blast
  show ?case
  proof (cases st1)
    case None
    with a And.prems(2) have b: "run_sh tools b c1 w1 = (st, cwd', w')" by simp
    from And.IH(2)[OF sb b] obtain ys where ys: "invoked w' = invoked w1 @ ys"
      "reached w' = reached w1"
      "prefix ys (snd (calls b c1))"
      "st = None \<longrightarrow> ys = snd (calls b c1) \<and> cwd' = fst (calls b c1)" by blast
    from xs ys None show ?thesis
      by (auto simp: split_beta)
  next
    case (Some e)
    with a And.prems(2) have "st = Some e" "w' = w1" by simp_all
    with xs show ?thesis by (auto simp: split_beta intro: prefix_order.trans)
  qed
next
  case (Pipe a b)
  from Pipe.prems(1) obtain argv where ar: "a = Run argv" and sb: "straight b"
    by (cases a) auto
  obtain st1 c1 w1 where a: "run_sh tools a cwd w = (st1, c1, w1)"
    by (cases "run_sh tools a cwd w") auto
  with ar have w1: "invoked w1 = invoked w @ [(cwd, argv)]" "reached w1 = reached w"
    by (auto split: prod.splits dest: run_tool_invoked)
  obtain st2 c2 w2 where b: "run_sh tools b cwd w1 = (st2, c2, w2)"
    by (cases "run_sh tools b cwd w1") auto
  from Pipe.IH(2)[OF sb b] obtain ys where ys: "invoked w2 = invoked w1 @ ys"
      "reached w2 = reached w1"
      "prefix ys (snd (calls b cwd))"
      "st2 = None \<longrightarrow> ys = snd (calls b cwd) \<and> c2 = fst (calls b cwd)" by blast
  from a b Pipe.prems(2) have "st = st2" "cwd' = cwd" "w' = w2" by simp_all
  with w1 ys ar show ?case by auto
qed

lemma run_recipe_calls:
  assumes "list_all straight ls" and "run_recipe tools root ls w = (st, w')"
  shows "\<exists>xs. invoked w' = invoked w @ xs \<and> reached w' = reached w \<and>
              prefix xs (recipe_calls root ls) \<and>
              (st = None \<longrightarrow> xs = recipe_calls root ls)"
  using assms
proof (induction ls arbitrary: w)
  case Nil
  then show ?case by (simp add: recipe_calls_def)
next
  case (Cons l ls)
  obtain st1 c1 w1 where l: "run_sh tools l root w = (st1, c1, w1)"
    by (cases "run_sh tools l root w") auto
  from Cons.prems(1) have sl: "straight l" and sls: "list_all straight ls" by simp_all
  from run_sh_calls[OF sl l] obtain xs where xs: "invoked w1 = invoked w @ xs"
    "reached w1 = reached w"
    "prefix xs (snd (calls l root))" "st1 = None \<longrightarrow> xs = snd (calls l root)" by blast
  show ?case
  proof (cases st1)
    case None
    with l Cons.prems(2) have r: "run_recipe tools root ls w1 = (st, w')" by simp
    from Cons.IH[OF sls r] obtain ys where "invoked w' = invoked w1 @ ys"
      "reached w' = reached w1"
      "prefix ys (recipe_calls root ls)" "st = None \<longrightarrow> ys = recipe_calls root ls" by blast
    with xs None show ?thesis by (auto simp: recipe_calls_def)
  next
    case (Some e)
    with l Cons.prems(2) have "st = Some e" "w' = w1" by simp_all
    with xs show ?thesis by (auto simp: recipe_calls_def intro: prefix_order.trans)
  qed
qed

lemma run_rule_calls:
  assumes "list_all straight (recipe r)" and "run_rule tools root r w = (out, w')"
  shows "\<exists>xs. invoked w' = invoked w @ xs \<and> reached w' = reached w \<and>
              prefix xs (recipe_calls root (recipe r)) \<and>
              (out = Done \<longrightarrow> xs = recipe_calls root (recipe r)) \<and>
              (out = Done \<or> (\<exists>e. out = Stopped (target r) e))"
proof -
  obtain st w1 where r: "run_recipe tools root (recipe r) w = (st, w1)"
    by (cases "run_recipe tools root (recipe r) w") auto
  from run_recipe_calls[OF assms(1) r] r assms(2) show ?thesis
    by (cases st) (auto simp: run_rule_def)
qed

lemma named_calls_append:
  "named_calls root mk (ts @ us) = named_calls root mk ts @ named_calls root mk us"
  by (simp add: named_calls_def)

lemma named_calls_mono:
  "set ms \<subseteq> set ts \<Longrightarrow> set (named_calls root mk ms) \<subseteq> set (named_calls root mk ts)"
  by (auto simp: named_calls_def)

lemma rule_for_Some: "rule_for mk t = Some r \<Longrightarrow> r \<in> set mk \<and> target r = t"
  by (auto simp: rule_for_def find_Some_iff)

lemma ran_append: "ran (xs @ ys) = ran xs @ ran ys"
  by (simp add: ran_def)

lemma ran_subset: "set (ran rs) \<subseteq> set (map fst rs)"
  by (auto simp: ran_def)

text \<open>
  A run through a list of prerequisites reaches them in the order of the list. A run that
  ends well has reached them all and has started all the programs of each one whose
  recipe it ran. A run that stops has reached the ones up to the one that stopped it: it
  has started all the programs of those before it whose recipes it ran, and some first
  part of the programs of the last.
\<close>

lemma run_steps_calls:
  assumes "\<forall>r \<in> set mk. list_all straight (recipe r)"
    and "\<forall>t \<in> set ts. rule_for mk t \<noteq> None"
    and "run_steps tools root mk ts w = (out, w')"
  shows "\<exists>rs xs. reached w' = reached w @ rs \<and> invoked w' = invoked w @ xs \<and>
     (case out of
        Done \<Rightarrow> map fst rs = ts \<and> xs = named_calls root mk (ran rs)
      | Stopped t e \<Rightarrow>
          (\<exists>before after ys. ts = map fst before @ t # after \<and> rs = before @ [(t, True)] \<and>
             xs = named_calls root mk (ran before) @ ys \<and>
             prefix ys (named_calls root mk [t])))"
  using assms(2,3)
proof (induction ts arbitrary: w)
  case Nil
  then have "out = Done" "w' = w" by simp_all
  then show ?case by (simp add: named_calls_def ran_def)
next
  case (Cons t ts)
  from Cons.prems(1) have rest_rules: "\<forall>t \<in> set ts. rule_for mk t \<noteq> None" by simp
  show ?case
  proof (cases "present (files w) root t")
    case True
    let ?w0 = "w\<lparr>reached := reached w @ [(t, False)]\<rparr>"
    from True Cons.prems(2) have "run_steps tools root mk ts ?w0 = (out, w')" by simp
    from Cons.IH[OF rest_rules this] obtain rs xs where
      m: "reached w' = reached ?w0 @ rs" "invoked w' = invoked ?w0 @ xs"
      "case out of
         Done \<Rightarrow> map fst rs = ts \<and> xs = named_calls root mk (ran rs)
       | Stopped t e \<Rightarrow>
           (\<exists>before after ys. ts = map fst before @ t # after \<and> rs = before @ [(t, True)] \<and>
              xs = named_calls root mk (ran before) @ ys \<and>
              prefix ys (named_calls root mk [t]))" by blast
    have mm: "reached w' = reached w @ (t, False) # rs" using m(1) by simp
    have ii: "invoked w' = invoked w @ xs" using m(2) by simp
    show ?thesis
    proof (cases out)
      case Done
      with m(3) have "map fst ((t, False) # rs) = t # ts"
        "xs = named_calls root mk (ran ((t, False) # rs))" by (simp_all add: ran_def)
      with Done mm ii show ?thesis by auto
    next
      case (Stopped t' e)
      with m(3) obtain before after ys where b: "ts = map fst before @ t' # after"
        "rs = before @ [(t', True)]" "xs = named_calls root mk (ran before) @ ys"
        "prefix ys (named_calls root mk [t'])" by auto
      have "t # ts = map fst ((t, False) # before) @ t' # after" using b(1) by simp
      moreover have "(t, False) # rs = ((t, False) # before) @ [(t', True)]" using b(2) by simp
      moreover have "xs = named_calls root mk (ran ((t, False) # before)) @ ys"
        using b(3) by (simp add: ran_def)
      ultimately have "\<exists>before after ys. t # ts = map fst before @ t' # after \<and>
          (t, False) # rs = before @ [(t', True)] \<and>
          xs = named_calls root mk (ran before) @ ys \<and>
          prefix ys (named_calls root mk [t'])"
        using b(4) by blast
      with Stopped mm ii show ?thesis by auto
    qed
  next
    case False
    from Cons.prems(1) obtain r where Some: "rule_for mk t = Some r" by auto
    from rule_for_Some[OF Some] assms(1) have st: "list_all straight (recipe r)"
      and tr: "target r = t" by auto
    obtain o1 w1 where r: "run_rule tools root r w = (o1, w1)"
      by (cases "run_rule tools root r w") auto
    let ?w1 = "w1\<lparr>reached := reached w1 @ [(t, True)]\<rparr>"
    from run_rule_calls[OF st r] obtain xs where xs: "invoked w1 = invoked w @ xs"
      "reached w1 = reached w"
      "prefix xs (recipe_calls root (recipe r))"
      "o1 = Done \<longrightarrow> xs = recipe_calls root (recipe r)"
      "o1 = Done \<or> (\<exists>e. o1 = Stopped t e)" using tr by auto
    have one: "named_calls root mk [t] = recipe_calls root (recipe r)"
      using Some by (simp add: named_calls_def)
    show ?thesis
    proof (cases o1)
      case Done
      with r Some False Cons.prems(2) have rest: "run_steps tools root mk ts ?w1 = (out, w')"
        by simp
      from Cons.IH[OF rest_rules rest] obtain rs ys where
        m: "reached w' = reached ?w1 @ rs" "invoked w' = invoked ?w1 @ ys"
        "case out of
           Done \<Rightarrow> map fst rs = ts \<and> ys = named_calls root mk (ran rs)
         | Stopped t' e \<Rightarrow>
             (\<exists>before after zs. ts = map fst before @ t' # after \<and> rs = before @ [(t', True)] \<and>
                ys = named_calls root mk (ran before) @ zs \<and>
                prefix zs (named_calls root mk [t']))" by blast
      have full: "xs = named_calls root mk [t]" using xs(4) Done one by simp
      have mm: "reached w' = reached w @ (t, True) # rs" using m(1) xs(2) by simp
      have ii: "invoked w' = invoked w @ xs @ ys" using m(2) xs(1) by simp
      have rn: "ran ((t, True) # bs) = t # ran bs" for bs by (simp add: ran_def)
      show ?thesis
      proof (cases out)
        case Done
        with m(3) full named_calls_append[of root mk "[t]" "ran rs"]
        have "map fst ((t, True) # rs) = t # ts"
          "xs @ ys = named_calls root mk (ran ((t, True) # rs))" by (simp_all add: rn)
        with Done mm ii show ?thesis by auto
      next
        case (Stopped t' e)
        with m(3) obtain before after zs where b: "ts = map fst before @ t' # after"
          "rs = before @ [(t', True)]"
          "ys = named_calls root mk (ran before) @ zs" "prefix zs (named_calls root mk [t'])"
          by auto
        have "t # ts = map fst ((t, True) # before) @ t' # after" using b(1) by simp
        moreover have "(t, True) # rs = ((t, True) # before) @ [(t', True)]" using b(2) by simp
        moreover have "xs @ ys = named_calls root mk (ran ((t, True) # before)) @ zs"
          using full b(3) named_calls_append[of root mk "[t]" "ran before"] by (simp add: rn)
        ultimately have "\<exists>before after zs. t # ts = map fst before @ t' # after \<and>
            (t, True) # rs = before @ [(t', True)] \<and>
            xs @ ys = named_calls root mk (ran before) @ zs \<and>
            prefix zs (named_calls root mk [t'])"
          using b(4) by blast
        with Stopped mm ii show ?thesis by auto
      qed
    next
      case (Stopped t' e)
      with xs(5) have t': "t' = t" by simp
      from Stopped r Some False Cons.prems(2) have out: "out = Stopped t e" "w' = ?w1"
        using t' by simp_all
      have "\<exists>before after ys. t # ts = map fst before @ t # after \<and>
          [(t, True)] = before @ [(t, True)] \<and>
          xs = named_calls root mk (ran before) @ ys \<and> prefix ys (named_calls root mk [t])"
        by (rule exI[of _ "[]"], rule exI[of _ ts], rule exI[of _ xs])
           (simp add: named_calls_def ran_def one[unfolded named_calls_def, simplified] xs(3))
      with out xs(1,2) show ?thesis by auto
    qed
  qed
qed

lemmas rule_defs = help_rule_def create_react_app_def generator_def configure_prettier_def
  install_bootstrap_def install_redux_def install_router_def install_styled_components_def
  copy_files_def git_commit_def build_def in_project_def in_moved_def legacy_def
  copy_dirs_def copy_pairs_def

lemma makefile_straight: "\<forall>r \<in> set (makefile v p). list_all straight (recipe r)"
  by (cases v) (simp_all add: makefile_def rule_defs)

lemma build_steps_rules: "\<forall>t \<in> set (build_steps v). rule_for (makefile v p) t \<noteq> None"
  by (cases v) (simp_all add: build_steps_def rule_for_makefile)

lemma build_steps_calls:
  "named_calls root (makefile v p) (build_steps v) = steps_calls root (build_rules v p)"
  by (cases v)
     (simp_all add: named_calls_def steps_calls_def build_steps_def build_rules_def
        rule_for_makefile)

lemma run_build_rule: "run_rule tools root (build v) w = (Done, w)"
  by (simp add: run_rule_def build_def)

lemma make_build:
  "make tools root (makefile v p) ''build'' w =
     run_steps tools root (makefile v p) (build_steps v) w"
  by (cases "run_steps tools root (makefile v p) (build_steps v) w")
     (auto simp: make_def rule_for_makefile rule_prereqs run_build_rule split: outcome.splits)

lemma make_build_calls:
  assumes "make tools root (makefile v p) ''build'' w = (out, w')"
  shows "\<exists>rs xs. reached w' = reached w @ rs \<and> invoked w' = invoked w @ xs \<and>
     (case out of
        Done \<Rightarrow> map fst rs = build_steps v \<and> xs = named_calls root (makefile v p) (ran rs)
      | Stopped t e \<Rightarrow>
          (\<exists>before after ys. build_steps v = map fst before @ t # after \<and>
             rs = before @ [(t, True)] \<and>
             xs = named_calls root (makefile v p) (ran before) @ ys \<and>
             prefix ys (named_calls root (makefile v p) [t])))"
  using run_steps_calls[OF makefile_straight build_steps_rules, of tools root v p w out w'] assms
  by (simp add: make_build)

text \<open>Whatever a run of \<^verbatim>\<open>build\<close> starts is among the programs of its steps.\<close>

lemma make_build_subset:
  "\<exists>xs. invoked (snd (make tools root (makefile v p) ''build'' w)) = invoked w @ xs \<and>
        set xs \<subseteq> set (steps_calls root (build_rules v p))"
proof -
  obtain out w' where r: "make tools root (makefile v p) ''build'' w = (out, w')"
    by (cases "make tools root (makefile v p) ''build'' w")
  from make_build_calls[OF r] obtain rs xs where m: "invoked w' = invoked w @ xs"
    "case out of
        Done \<Rightarrow> map fst rs = build_steps v \<and> xs = named_calls root (makefile v p) (ran rs)
      | Stopped t e \<Rightarrow>
          (\<exists>before after ys. build_steps v = map fst before @ t # after \<and>
             rs = before @ [(t, True)] \<and>
             xs = named_calls root (makefile v p) (ran before) @ ys \<and>
             prefix ys (named_calls root (makefile v p) [t]))" by blast
  have "set xs \<subseteq> set (named_calls root (makefile v p) (build_steps v))"
  proof (cases out)
    case Done
    with m(2) have "set (ran rs) \<subseteq> set (build_steps v)" "xs = named_calls root (makefile v p) (ran rs)"
      using ran_subset[of rs] by auto
    with named_calls_mono[of "ran rs" "build_steps v"] show ?thesis by simp
  next
    case (Stopped t e)
    with m(2) obtain before after ys where b: "build_steps v = map fst before @ t # after"
      "xs = named_calls root (makefile v p) (ran before) @ ys"
      "prefix ys (named_calls root (makefile v p) [t])" by auto
    from b(3) have "set ys \<subseteq> set (named_calls root (makefile v p) [t])"
      by (rule set_mono_prefix)
    moreover have "set (ran before @ [t]) \<subseteq> set (build_steps v)"
      using ran_subset[of before] b(1) by auto
    ultimately show ?thesis
      using named_calls_mono[of "ran before @ [t]" "build_steps v" root "makefile v p"]
      unfolding b(2) by (auto simp: named_calls_append)
  qed
  with m(1) r show ?thesis by (simp add: build_steps_calls)
qed

lemma generator_is_a_tool: "coreutil (generator v p) cwd fs = None"
  by (simp add: coreutil_def generator_def)

lemma run_sh_reached: "reached (snd (snd (run_sh tools l cwd w))) = reached w"
proof (induction l arbitrary: cwd w)
  case (Cd d)
  then show ?case by simp
next
  case (Echo s)
  then show ?case by simp
next
  case (Run argv)
  then show ?case by (auto split: prod.splits dest: run_tool_invoked)
next
  case (And a b)
  obtain s1 c1 w1 where a: "run_sh tools a cwd w = (s1, c1, w1)"
    by (cases "run_sh tools a cwd w")
  with And.IH(1)[of cwd w] have 1: "reached w1 = reached w" by simp
  show ?case
  proof (cases s1)
    case None
    with a And.IH(2)[of c1 w1] 1 show ?thesis by simp
  next
    case (Some e)
    with a 1 show ?thesis by simp
  qed
next
  case (Pipe a b)
  obtain s1 c1 w1 where a: "run_sh tools a cwd w = (s1, c1, w1)"
    by (cases "run_sh tools a cwd w")
  with Pipe.IH(1)[of cwd w] have 1: "reached w1 = reached w" by simp
  obtain s2 c2 w2 where b: "run_sh tools b cwd w1 = (s2, c2, w2)"
    by (cases "run_sh tools b cwd w1")
  with Pipe.IH(2)[of cwd w1] 1 a show ?case by simp
qed

lemma run_recipe_reached: "reached (snd (run_recipe tools root ls w)) = reached w"
proof (induction ls arbitrary: w)
  case Nil
  then show ?case by simp
next
  case (Cons l ls)
  obtain s1 c1 w1 where l: "run_sh tools l root w = (s1, c1, w1)"
    by (cases "run_sh tools l root w")
  with run_sh_reached[of tools l root w] have "reached w1 = reached w" by simp
  with Cons.IH[of w1] l show ?case by (cases s1) simp_all
qed

lemma run_rule_reached: "reached (snd (run_rule tools root r w)) = reached w"
  using run_recipe_reached[of tools root "recipe r" w]
  by (auto simp: run_rule_def split: prod.splits option.splits)

text \<open>A step whose recipe can only stop is not among the steps that were run in a run
  that ends well.\<close>

lemma run_steps_never:
  assumes "rule_for mk t = Some r" and "\<forall>w. fst (run_rule tools root r w) \<noteq> Done"
    and "run_steps tools root mk ts w = (Done, w')"
  shows "\<exists>rs. reached w' = reached w @ rs \<and> (t, True) \<notin> set rs"
  using assms(3)
proof (induction ts arbitrary: w)
  case Nil
  then show ?case by simp
next
  case (Cons u ts)
  show ?case
  proof (cases "present (files w) root u")
    case True
    let ?w0 = "w\<lparr>reached := reached w @ [(u, False)]\<rparr>"
    from True Cons.prems have "run_steps tools root mk ts ?w0 = (Done, w')" by simp
    from Cons.IH[OF this] show ?thesis by auto
  next
    case False
    with Cons.prems obtain r' where r': "rule_for mk u = Some r'"
      by (cases "rule_for mk u") auto
    obtain o1 w1 where o: "run_rule tools root r' w = (o1, w1)"
      by (cases "run_rule tools root r' w")
    let ?w1 = "w1\<lparr>reached := reached w1 @ [(u, True)]\<rparr>"
    from o Cons.prems False r' have d: "o1 = Done"
      and rest: "run_steps tools root mk ts ?w1 = (Done, w')"
      by (cases o1; simp)+
    have ne: "u \<noteq> t"
    proof
      assume "u = t"
      with r' assms(1) have "r' = r" by simp
      with o d assms(2) show False by (metis fst_conv)
    qed
    have "reached ?w1 = reached w @ [(u, True)]"
      using run_rule_reached[of tools root r' w] o by simp
    with Cons.IH[OF rest] ne show ?thesis by auto
  qed
qed

section \<open>Parameters\<close>

text \<open>
  Claim C8. With no \<^verbatim>\<open>NAME=\<close> on the command line make substitutes \<^verbatim>\<open>'my_project'\<close>, which
  the shell reads as the name \<^verbatim>\<open>my_project\<close>; with no \<^verbatim>\<open>PARENT_DIR=\<close> it substitutes
  \<^verbatim>\<open>.\<close>, the directory make was invoked in. Both Makefiles agree.
\<close>

theorem default_parameters:
  "(map_of cmdline ''NAME'' = None \<longrightarrow>
      expand v cmdline ''NAME'' = CHR 0x27 # ''my_project'' @ [CHR 0x27] \<and>
      NAME (params_of v cmdline) = ''my_project'') \<and>
   (map_of cmdline ''PARENT_DIR'' = None \<longrightarrow>
      PARENT_DIR (params_of v cmdline) = ''.'' \<and>
      resolve root (PARENT_DIR (params_of v cmdline)) = root)"
  by (simp add: params_of_def expand_def makefile_vars_def unquote_def resolve_def)

theorem default_parameters_witness:
  "map_of [] ''NAME'' = None \<and> map_of [] ''PARENT_DIR'' = None \<and>
   NAME (params_of JS []) = ''my_project'' \<and> NAME (params_of TS []) = ''my_project'' \<and>
   resolve demo_root (PARENT_DIR (params_of JS [])) = demo_root \<and>
   resolve demo_root (PARENT_DIR (params_of TS [])) = demo_root"
  using default_parameters[of "[]" JS demo_root] default_parameters[of "[]" TS demo_root]
  by (simp add: resolve_def)

section \<open>The build sequence\<close>





text \<open>
  Claim C9. In the TypeScript Makefile \<^verbatim>\<open>configure-prettier\<close> is not a prerequisite of
  \<^verbatim>\<open>build\<close> (the comment above the rule says it was removed), and no run of \<^verbatim>\<open>build\<close>
  starts any of its programs. The rule is still there: \<^verbatim>\<open>make configure-prettier\<close> runs
  it unless a file or directory of that name is present, and a run that ends well has
  then installed husky, lint-staged and prettier, merged the configuration with \<^verbatim>\<open>jq\<close>
  and \<^verbatim>\<open>sponge\<close> and registered the hook.
\<close>

theorem ts_build_skips_prettier:
  "''configure-prettier'' \<notin> set (prereqs (build TS)) \<and>
   (\<forall>c \<in> set (drop (length (invoked w))
             (invoked (snd (make tools root (makefile TS p) ''build'' w)))).
      c \<notin> set (recipe_calls root (recipe (configure_prettier p)))) \<and>
   rule_for (makefile TS p) ''configure-prettier'' = Some (configure_prettier p) \<and>
   (\<not> present (files w) root ''configure-prettier'' \<and>
    fst (make tools root (makefile TS p) ''configure-prettier'' w) = Done \<longrightarrow>
    invoked (snd (make tools root (makefile TS p) ''configure-prettier'' w)) =
      invoked w @
      [(resolve root (NAME p), [''npm'', ''install'', ''husky'', ''lint-staged'', ''prettier'']),
       (resolve root (NAME p),
        [''jq'', ''-s'', ''.[0] * .[1]'', ''package.json'', ''../prettier-config.json'']),
       (resolve root (NAME p), [''sponge'', ''package.json'']),
       (resolve root (NAME p),
        [''/usr/bin/npx'', ''husky'', ''add'', ''.husky/pre-commit'', ''npx lint-staged''])])"
proof -
  have 1: "''configure-prettier'' \<notin> set (prereqs (build TS))"
    by (simp add: build_def build_steps_def)
  from make_build_subset[of tools root TS p w]
  obtain xs where xs: "invoked (snd (make tools root (makefile TS p) ''build'' w)) = invoked w @ xs"
    and sub: "set xs \<subseteq> set (steps_calls root (build_rules TS p))" by auto
  have "\<forall>c \<in> set (steps_calls root (build_rules TS p)).
          c \<notin> set (recipe_calls root (recipe (configure_prettier p)))"
    by (simp add: steps_calls_def recipe_calls_def build_rules_def rule_defs)
  with sub xs have 2: "\<forall>c \<in> set (drop (length (invoked w))
             (invoked (snd (make tools root (makefile TS p) ''build'' w)))).
      c \<notin> set (recipe_calls root (recipe (configure_prettier p)))" by auto
  have m: "make tools root (makefile TS p) ''configure-prettier'' w =
      run_rule tools root (configure_prettier p) w"
    if "\<not> present (files w) root ''configure-prettier''"
    using that by (simp add: make_step rule_for_makefile rule_prereqs)
  have st: "list_all straight (recipe (configure_prettier p))"
    by (simp add: rule_defs)
  have 4: "\<not> present (files w) root ''configure-prettier'' \<and>
    fst (make tools root (makefile TS p) ''configure-prettier'' w) = Done \<longrightarrow>
    invoked (snd (make tools root (makefile TS p) ''configure-prettier'' w)) =
      invoked w @ recipe_calls root (recipe (configure_prettier p))"
    using run_rule_calls[OF st, of tools root w
        "fst (run_rule tools root (configure_prettier p) w)"
        "snd (run_rule tools root (configure_prettier p) w)"] m
    by auto
  have 5: "recipe_calls root (recipe (configure_prettier p)) =
      [(resolve root (NAME p), [''npm'', ''install'', ''husky'', ''lint-staged'', ''prettier'']),
       (resolve root (NAME p),
        [''jq'', ''-s'', ''.[0] * .[1]'', ''package.json'', ''../prettier-config.json'']),
       (resolve root (NAME p), [''sponge'', ''package.json'']),
       (resolve root (NAME p),
        [''/usr/bin/npx'', ''husky'', ''add'', ''.husky/pre-commit'', ''npx lint-staged''])]"
    by (simp add: recipe_calls_def rule_defs)
  from 1 2 4 show ?thesis
    unfolding 5 by (simp add: rule_for_makefile)
qed

theorem ts_build_skips_prettier_witness:
  "fst (make (demo_tools []) demo_root (makefile TS demo_params) ''configure-prettier''
          demo_existing) = Done \<and>
   invoked (snd (make (demo_tools []) demo_root (makefile TS demo_params) ''configure-prettier''
                   demo_existing)) =
     [([''work'', ''demo''], [''npm'', ''install'', ''husky'', ''lint-staged'', ''prettier'']),
      ([''work'', ''demo''],
       [''jq'', ''-s'', ''.[0] * .[1]'', ''package.json'', ''../prettier-config.json'']),
      ([''work'', ''demo''], [''sponge'', ''package.json'']),
      ([''work'', ''demo''],
       [''/usr/bin/npx'', ''husky'', ''add'', ''.husky/pre-commit'', ''npx lint-staged''])]"
proof -
  have d: "fst (make (demo_tools []) demo_root (makefile TS demo_params) ''configure-prettier''
                 demo_existing) = Done"
    by code_simp
  have a: "\<not> present (files demo_existing) demo_root ''configure-prettier''"
    by code_simp
  have e: "invoked demo_existing = []"
    by (simp add: demo_existing_def demo_world_def)
  have n: "resolve demo_root (NAME demo_params) = [''work'', ''demo'']"
    by code_simp
  from ts_build_skips_prettier[of demo_existing "demo_tools []" demo_root demo_params] d a e
  show ?thesis unfolding n by simp
qed

text \<open>
  Claim C6 says that every step after the first runs its programs in the project
  directory. The \<^verbatim>\<open>mkdir\<close> and \<^verbatim>\<open>cp\<close> lines of \<^verbatim>\<open>copy-files\<close> have no \<^verbatim>\<open>cd\<close>: they run in
  the directory make was invoked in, on paths that start with the project name.
\<close>

theorem copy_files_runs_in_invocation_directory:
  "invoked (snd (make (demo_tools []) demo_root (makefile TS demo_params) ''build'' demo_world)) ! 5
     = ([''work''], [''mkdir'', ''-p'', ''demo/src/components'']) \<and>
   demo_root @ [NAME demo_params] = [''work'', ''demo'']"
  by code_simp

lemma build_calls_started_in:
  assumes "safe_name (NAME p)"
  shows "\<forall>(c, argv) \<in> set (steps_calls root (build_rules v p)). c = started_in root p argv"
  by (cases v)
     (simp_all add: steps_calls_def recipe_calls_def build_rules_def rule_defs
        resolve_name[OF assms] started_in_def)

text \<open>
  Claim C6, amended. In every run of \<^verbatim>\<open>build\<close> the installers and the formatting tools
  (\<^verbatim>\<open>npm\<close>, \<^verbatim>\<open>jq\<close>, \<^verbatim>\<open>sponge\<close>, \<^verbatim>\<open>npx husky\<close>) are started in the project directory
  \<^verbatim>\<open>NAME\<close> under the invocation directory, \<^verbatim>\<open>git\<close> is started in \<^verbatim>\<open>PARENT_DIR/NAME\<close>, and
  every other program (the generator, \<^verbatim>\<open>mkdir\<close>, \<^verbatim>\<open>cp\<close>, \<^verbatim>\<open>mv\<close>) is started in the
  invocation directory itself.
\<close>

theorem programs_started_in:
  assumes "safe_name (NAME p)"
  shows "\<forall>(c, argv) \<in> set (drop (length (invoked w))
            (invoked (snd (make tools root (makefile v p) ''build'' w)))).
           c = started_in root p argv"
proof -
  from make_build_subset[of tools root v p w]
  obtain xs where xs: "invoked (snd (make tools root (makefile v p) ''build'' w)) = invoked w @ xs"
    and "set xs \<subseteq> set (steps_calls root (build_rules v p))" by auto
  with build_calls_started_in[OF assms, of root v] show ?thesis by auto
qed

theorem programs_started_in_witness:
  "safe_name (NAME demo_params) \<and>
   map fst (invoked (snd (make (demo_tools []) demo_root (makefile TS demo_params) ''build''
                           demo_world))) =
   map (\<lambda>(c, argv). started_in demo_root demo_params argv)
     (invoked (snd (make (demo_tools []) demo_root (makefile TS demo_params) ''build''
                      demo_world)))"
proof -
  have s: "safe_name (NAME demo_params)"
    by (simp add: demo_params_def safe_name_def name_char_def)
  have e: "invoked demo_world = []"
    by (simp add: demo_world_def)
  from programs_started_in[OF s, of demo_world "demo_tools []" demo_root TS] s e
  show ?thesis by (auto simp: map_eq_conv)
qed

text \<open>
  The status of a pipe is the status of its right side, whatever the left side did.
\<close>

lemma pipe_status:
  "fst (run_sh tools (Pipe (Run a) (Run b)) cwd w) =
   fst (run_tool tools b cwd (snd (run_tool tools a cwd w)))"
  by (simp split: prod.splits)

text \<open>
  Claim C1 says that the run halts at the step whose command fails. The first line of
  \<^verbatim>\<open>configure-prettier\<close> ends in \<^verbatim>\<open>jq ... | sponge package.json\<close>. In the sample run of the
  JavaScript \<^verbatim>\<open>build\<close> \<^verbatim>\<open>jq\<close> exits with a failure status and \<^verbatim>\<open>sponge\<close> with status 0:
  make goes on with the hook registration, the four installations and the template copy,
  and stops only at the \<^verbatim>\<open>mv\<close> of \<^verbatim>\<open>git-commit\<close>.
\<close>

theorem jq_failure_goes_unnoticed:
  "fst (demo_tools [''jq'']
         [''jq'', ''-s'', ''.[0] * .[1]'', ''package.json'', ''../prettier-config.json'']
         [''work'', ''demo''] demo_world) = False \<and>
   invoked (snd (make (demo_tools [''jq'']) demo_root (makefile JS demo_params) ''build''
                   demo_world)) ! 2 =
     ([''work'', ''demo''],
      [''jq'', ''-s'', ''.[0] * .[1]'', ''package.json'', ''../prettier-config.json'']) \<and>
   map snd (drop 3 (invoked (snd (make (demo_tools [''jq'']) demo_root (makefile JS demo_params)
                                   ''build'' demo_world)))) =
     [[''sponge'', ''package.json''],
      [''/usr/bin/npx'', ''husky'', ''add'', ''.husky/pre-commit'', ''npx lint-staged''],
      [''npm'', ''install'', ''redux'', ''react-redux''],
      [''npm'', ''install'', ''react-router-dom''],
      [''npm'', ''install'', ''react-bootstrap'', ''bootstrap''],
      [''npm'', ''install'', ''styled-components''],
      [''mkdir'', ''-p'', ''demo/src/components''],
      [''mkdir'', ''-p'', ''demo/src/actions''],
      [''mkdir'', ''-p'', ''demo/src/reducers''],
      [''cp'', ''boilerplate-action.js'', ''demo/src/actions/index.js''],
      [''cp'', ''boilerplate-reducer.js'', ''demo/src/reducers/index.js''],
      [''cp'', ''boilerplate-app.js'', ''demo/src/App.js''],
      [''cp'', ''boilerplate-index.js'', ''demo/src/index.js''],
      [''mv'', ''-r'', ''demo'', ''/tmp/.'']] \<and>
   fst (make (demo_tools [''jq'']) demo_root (makefile JS demo_params) ''build'' demo_world) =
     Stopped ''git-commit'' InvalidOption"
  by code_simp

text \<open>
  Claim C7 says that \<^verbatim>\<open>build\<close> stops at skeleton generation whenever the project name
  exists as a directory. With \<^verbatim>\<open>NAME=create-react-app\<close> the project directory has the name
  of the first target: make finds it, takes the target as up to date and never starts the
  generator. The JavaScript \<^verbatim>\<open>build\<close> goes on with the installations in that directory,
  which write to its manifest, and stops only at \<^verbatim>\<open>mv -r\<close>; the TypeScript \<^verbatim>\<open>build\<close> runs
  to its end, \<^verbatim>\<open>git commit\<close> included.
\<close>

theorem existing_name_not_noticed:
  "stat (files demo_named) (demo_root @ [NAME named_params]) = Some Dir \<and>
   take 1 (reached (snd (make (demo_tools []) demo_root (makefile JS named_params) ''build''
                           demo_named))) = [(''create-react-app'', False)] \<and>
   filter (\<lambda>(c, argv). take 2 argv = [''/usr/bin/npx'', ''create-react-app''])
     (invoked (snd (make (demo_tools []) demo_root (makefile JS named_params) ''build''
                      demo_named))) = [] \<and>
   take 1 (invoked (snd (make (demo_tools []) demo_root (makefile JS named_params) ''build''
                           demo_named))) =
     [([''work'', ''create-react-app''],
       [''npm'', ''install'', ''husky'', ''lint-staged'', ''prettier''])] \<and>
   fst (make (demo_tools []) demo_root (makefile JS named_params) ''build'' demo_named) =
     Stopped ''git-commit'' InvalidOption \<and>
   fst (make (demo_tools []) demo_root (makefile TS named_params) ''build'' demo_named) = Done \<and>
   filter (\<lambda>(c, argv). take 2 argv = [''/usr/bin/npx'', ''create-react-app''])
     (invoked (snd (make (demo_tools []) demo_root (makefile TS named_params) ''build''
                      demo_named))) = [] \<and>
   last (invoked (snd (make (demo_tools []) demo_root (makefile TS named_params) ''build''
                         demo_named))) =
     ([''tmp'', ''create-react-app''],
      [''git'', ''commit'', ''-mInitial setup of Redux and friends''])"
  by code_simp

text \<open>
  Claim C7, amended. The Makefiles do not look at the project name themselves: they start
  the generator and go by its exit status. If no file or directory named
  \<^verbatim>\<open>create-react-app\<close> is present in the invocation directory and the generator exits with
  a failure status (as it does when the project name exists and holds files in its
  way), then \<^verbatim>\<open>build\<close> stops at \<^verbatim>\<open>create-react-app\<close>: the generator is the only program
  started (no installer touches the manifest, no \<^verbatim>\<open>git\<close> makes a commit), and the files
  are as the generator left them.
\<close>

theorem failed_generator_stops_build:
  assumes "\<not> present (files w) root ''create-react-app''"
    and "fst (tools (generator v p) root w) = False"
  shows "make tools root (makefile v p) ''build'' w =
     (Stopped ''create-react-app'' ToolFailed,
      w\<lparr>files := snd (tools (generator v p) root w),
        invoked := invoked w @ [(root, generator v p)],
        reached := reached w @ [(''create-react-app'', True)]\<rparr>)"
proof -
  obtain f where t: "tools (generator v p) root w = (False, f)"
    using assms(2) by (cases "tools (generator v p) root w") auto
  have "run_rule tools root (create_react_app v p) w =
     (Stopped ''create-react-app'' ToolFailed,
      w\<lparr>invoked := invoked w @ [(root, generator v p)], files := f\<rparr>)"
    by (simp add: run_rule_def create_react_app_def run_tool_def generator_is_a_tool t)
  with assms(1) t show ?thesis
    by (cases v) (simp_all add: make_build rule_for_makefile build_steps_def)
qed

theorem failed_generator_stops_build_witness:
  "stat (files demo_existing) (demo_root @ [NAME demo_params]) = Some Dir \<and>
   make (demo_tools []) demo_root (makefile JS demo_params) ''build'' demo_existing =
     (Stopped ''create-react-app'' ToolFailed,
      demo_existing\<lparr>invoked :=
          [([''work''], [''/usr/bin/npx'', ''create-react-app'', ''demo'', ''--use-npm''])],
        reached := [(''create-react-app'', True)]\<rparr>) \<and>
   make (demo_tools []) demo_root (makefile TS demo_params) ''build'' demo_existing =
     (Stopped ''create-react-app'' ToolFailed,
      demo_existing\<lparr>invoked :=
          [([''work''], [''/usr/bin/npx'', ''create-react-app'', ''demo'', ''--use-npm'',
                         ''--template'', ''typescript''])],
        reached := [(''create-react-app'', True)]\<rparr>)"
proof -
  have d: "stat (files demo_existing) (demo_root @ [NAME demo_params]) = Some Dir"
    by code_simp
  have a: "\<not> present (files demo_existing) demo_root ''create-react-app''"
    by code_simp
  have b: "fst (demo_tools [] (generator v demo_params) demo_root demo_existing) = False"
    "snd (demo_tools [] (generator v demo_params) demo_root demo_existing) = files demo_existing"
    for v
    by (cases v; simp add: demo_tools_def generator_def demo_root_def demo_params_def
        demo_existing_def demo_world_def stat_def has_entries_def under_def Let_def)+
  have e: "invoked demo_existing = []" "reached demo_existing = []"
    by (simp_all add: demo_existing_def demo_world_def)
  have g: "generator JS demo_params = [''/usr/bin/npx'', ''create-react-app'', ''demo'', ''--use-npm'']"
    "generator TS demo_params = [''/usr/bin/npx'', ''create-react-app'', ''demo'', ''--use-npm'',
                         ''--template'', ''typescript'']"
    "demo_root = [''work'']"
    by (simp_all add: generator_def demo_params_def demo_root_def)
  from failed_generator_stops_build[where tools = "demo_tools []" and v = JS and p = demo_params,
        OF a b(1), unfolded b(2)]
    failed_generator_stops_build[where tools = "demo_tools []" and v = TS and p = demo_params,
        OF a b(1), unfolded b(2)] d
  show ?thesis unfolding e g by simp
qed

section \<open>The copy-files step\<close>

lemma copy_files_calls: "recipe_calls root (recipe (copy_files v p)) = copy_calls v root p"
  by (cases v) (simp_all add: recipe_calls_def copy_calls_def rule_defs)

lemma copy_files_straight: "list_all straight (recipe (copy_files v p))"
  by (cases v) (simp_all add: rule_defs)

text \<open>
  Claim C4 says that the step copies the four templates to four fixed destination paths.
  Where a destination is a directory, \<^verbatim>\<open>cp\<close> puts the copy inside it, under the name of
  the template, and the step ends well: in the first sample run \<^verbatim>\<open>demo/src/App.js\<close> is a
  directory before and after, and the template is at
  \<^verbatim>\<open>demo/src/App.js/boilerplate-app.js\<close>. And where a file named \<^verbatim>\<open>copy-files\<close> lies in
  the invocation directory, \<^verbatim>\<open>make copy-files\<close> takes the target as up to date: in the
  second sample run it ends well, starts no program, makes no directory and copies
  nothing.
\<close>

theorem copy_lands_elsewhere:
  "fst (make (demo_tools []) demo_root (makefile JS demo_params) ''copy-files'' demo_app_dir)
     = Done \<and>
   stat (files (snd (make (demo_tools []) demo_root (makefile JS demo_params) ''copy-files''
                       demo_app_dir))) [''work'', ''demo'', ''src'', ''App.js''] = Some Dir \<and>
   stat (files (snd (make (demo_tools []) demo_root (makefile JS demo_params) ''copy-files''
                       demo_app_dir)))
     [''work'', ''demo'', ''src'', ''App.js'', ''boilerplate-app.js''] = Some (File ''app'') \<and>
   make (demo_tools []) demo_root (makefile JS demo_params) ''copy-files'' demo_up_to_date
     = (Done, demo_up_to_date) \<and>
   invoked demo_up_to_date = [] \<and>
   stat (files demo_up_to_date) [''work'', ''demo''] = None"
  by code_simp

text \<open>
  Claim C4, amended. Let the project name be a plain name, the invocation directory be
  what its path says, none of the places the step names be a symbolic link, and no file
  or directory named \<^verbatim>\<open>copy-files\<close> be present. Then a run of \<^verbatim>\<open>copy-files\<close> that ends
  well has started the \<^verbatim>\<open>mkdir -p\<close> lines first and then the four \<^verbatim>\<open>cp\<close> lines; the
  directories it names exist afterwards; each destination lies under \<^verbatim>\<open>NAME/src\<close>; each
  template is a regular file that the run leaves as it is; and the content of the
  template is afterwards at its destination, whatever was there before, or, if the
  destination was a directory, inside that directory under the template's own name.
\<close>

theorem copy_files_effect:
  assumes "safe_name (NAME p)"
    and "at_home (files w) root"
    and "linkfree (files w) (places v root p)"
    and "\<not> present (files w) root ''copy-files''"
    and "make tools root (makefile v p) ''copy-files'' w = (Done, w')"
  shows "invoked w' = invoked w
           @ map (\<lambda>d. (root, [''mkdir'', ''-p'', NAME p @ ''/src/'' @ d])) (copy_dirs v)
           @ map (\<lambda>(s, d). (root, [''cp'', s, NAME p @ ''/src/'' @ d])) (copy_pairs v) \<and>
         length (copy_pairs v) = 4 \<and>
         (\<forall>d \<in> set (copy_dirs v).
            stat (files w') (root @ [NAME p, ''src'', d]) = Some Dir) \<and>
         (\<forall>(s, d) \<in> set (copy_pairs v).
            under (root @ [NAME p, ''src'']) (root @ NAME p # ''src'' # split_path d) \<and>
            (\<exists>c. stat (files w) (root @ [s]) = Some (File c) \<and>
                 stat (files w') (root @ [s]) = Some (File c) \<and>
                 stat (files w')
                   (if stat (files w) (root @ NAME p # ''src'' # split_path d) = Some Dir
                    then root @ NAME p # ''src'' # split_path d @ [s]
                    else root @ NAME p # ''src'' # split_path d) = Some (File c)))"
proof -
  from assms(4,5) have run: "run_rule tools root (copy_files v p) w = (Done, w')"
    by (simp add: make_copy_files)
  from copy_files_run(1,2)[OF assms(1,2,3), of tools] run
  have ok: "fst (copy_result v root p (files w)) = None"
    and fs: "files w' = snd (copy_result v root p (files w))"
    by (simp_all split: option.splits)
  from run_rule_calls[OF copy_files_straight run]
  have i: "invoked w' = invoked w @ copy_calls v root p"
    by (simp add: copy_files_calls)
  have four: "length (copy_pairs v) = 4"
    by (cases v) (simp_all add: copy_pairs_def)
  have dirs: "stat (files w') (root @ [NAME p, ''src'', d]) = Some Dir"
    if "d \<in> set (copy_dirs v)" for d
    unfolding fs using ok that by (intro copy_result_dirs[of v root p "files w" d]) simp_all
  show ?thesis
  proof (intro conjI ballI)
    show "invoked w' = invoked w
           @ map (\<lambda>d. (root, [''mkdir'', ''-p'', NAME p @ ''/src/'' @ d])) (copy_dirs v)
           @ map (\<lambda>(s, d). (root, [''cp'', s, NAME p @ ''/src/'' @ d])) (copy_pairs v)"
      using i by (simp add: copy_calls_def)
    show "length (copy_pairs v) = 4" by (rule four)
    show "stat (files w') (root @ [NAME p, ''src'', d]) = Some Dir"
      if "d \<in> set (copy_dirs v)" for d using that by (rule dirs)
    show "case sd of (s, d) \<Rightarrow>
            under (root @ [NAME p, ''src'']) (root @ NAME p # ''src'' # split_path d) \<and>
            (\<exists>c. stat (files w) (root @ [s]) = Some (File c) \<and>
                 stat (files w') (root @ [s]) = Some (File c) \<and>
                 stat (files w')
                   (if stat (files w) (root @ NAME p # ''src'' # split_path d) = Some Dir
                    then root @ NAME p # ''src'' # split_path d @ [s]
                    else root @ NAME p # ''src'' # split_path d) = Some (File c))"
      if "sd \<in> set (copy_pairs v)" for sd
    proof -
      obtain s d where sd: "sd = (s, d)" by (cases sd)
      have u: "under (root @ [NAME p, ''src'']) (root @ NAME p # ''src'' # split_path d)"
        by (simp add: under_def)
      from copy_result_copies[OF ok, of s d] that sd u show ?thesis
        unfolding fs by simp
    qed
  qed
qed

theorem copy_files_effect_witness:
  "fst (make (demo_tools []) demo_root (makefile JS demo_params) ''copy-files'' demo_skeleton) = Done \<and>
   stat (files demo_skeleton) [''work'', ''demo'', ''src'', ''App.js''] = Some (File ''generated'') \<and>
   stat (files (snd (make (demo_tools []) demo_root (makefile JS demo_params) ''copy-files''
                       demo_skeleton)))
     [''work'', ''demo'', ''src'', ''App.js''] = Some (File ''app'') \<and>
   stat (files (snd (make (demo_tools []) demo_root (makefile JS demo_params) ''copy-files''
                       demo_skeleton)))
     [''work'', ''demo'', ''src'', ''actions''] = Some Dir"
proof -
  let ?w' = "snd (make (demo_tools []) demo_root (makefile JS demo_params) ''copy-files''
                    demo_skeleton)"
  have s: "safe_name (NAME demo_params)"
    by (simp add: demo_params_def safe_name_def name_char_def)
  have h: "at_home (files demo_skeleton) demo_root"
    by code_simp
  have l: "linkfree (files demo_skeleton) (places JS demo_root demo_params)"
    by code_simp
  have n: "\<not> present (files demo_skeleton) demo_root ''copy-files''"
    by code_simp
  have d: "fst (make (demo_tools []) demo_root (makefile JS demo_params) ''copy-files''
                 demo_skeleton) = Done"
    by code_simp
  then have r: "make (demo_tools []) demo_root (makefile JS demo_params) ''copy-files''
        demo_skeleton = (Done, ?w')"
    by (simp add: prod_eq_iff)
  have pre: "stat (files demo_skeleton) [''work'', ''demo'', ''src'', ''App.js'']
      = Some (File ''generated'')"
    by code_simp
  have src: "stat (files demo_skeleton) (demo_root @ [''boilerplate-app.js''])
      = Some (File ''app'')"
    by code_simp
  have dst: "demo_root @ NAME demo_params # ''src'' # split_path ''App.js''
      = [''work'', ''demo'', ''src'', ''App.js'']"
    "demo_root @ [NAME demo_params, ''src'', ''actions''] = [''work'', ''demo'', ''src'', ''actions'']"
    by code_simp+
  have mem: "(''boilerplate-app.js'', ''App.js'') \<in> set (copy_pairs JS)"
    "''actions'' \<in> set (copy_dirs JS)"
    by (simp_all add: copy_pairs_def copy_dirs_def)
  from copy_files_effect[OF s h l n r] mem(1)
  have "\<exists>c. stat (files demo_skeleton) (demo_root @ [''boilerplate-app.js'']) = Some (File c) \<and>
       stat (files ?w')
         (if stat (files demo_skeleton)
               (demo_root @ NAME demo_params # ''src'' # split_path ''App.js'') = Some Dir
          then demo_root @ NAME demo_params # ''src'' # split_path ''App.js'' @ [''boilerplate-app.js'']
          else demo_root @ NAME demo_params # ''src'' # split_path ''App.js'') = Some (File c)"
    by fastforce
  with src pre have 1: "stat (files ?w') [''work'', ''demo'', ''src'', ''App.js''] = Some (File ''app'')"
    unfolding dst by auto
  from copy_files_effect[OF s h l n r] mem(2)
  have 2: "stat (files ?w') [''work'', ''demo'', ''src'', ''actions''] = Some Dir"
    unfolding dst[symmetric] by blast
  from d pre 1 2 show ?thesis by blast
qed

text \<open>
  Claim C5 says that a second run of the step leaves every destination as the first run
  left it, from every file system in which the first run succeeds. \<^verbatim>\<open>cp\<close> writes through
  a symbolic link: in the sample run the destination \<^verbatim>\<open>demo/src/index.js\<close> is a link to the
  template \<^verbatim>\<open>boilerplate-action.js\<close>, the first run ends well, leaves \<^verbatim>\<open>action\<close> in
  \<^verbatim>\<open>demo/src/actions/index.js\<close> and writes the content of \<^verbatim>\<open>boilerplate-index.js\<close> into the
  template; the second run ends well too and leaves \<^verbatim>\<open>index\<close> in
  \<^verbatim>\<open>demo/src/actions/index.js\<close>.
\<close>

theorem second_copy_differs:
  "fst (make (demo_tools []) demo_root (makefile JS demo_params) ''copy-files'' demo_linked)
     = Done \<and>
   stat (files (snd (make (demo_tools []) demo_root (makefile JS demo_params) ''copy-files''
                       demo_linked)))
     [''work'', ''demo'', ''src'', ''actions'', ''index.js''] = Some (File ''action'') \<and>
   fst (make (demo_tools []) demo_root (makefile JS demo_params) ''copy-files''
          (snd (make (demo_tools []) demo_root (makefile JS demo_params) ''copy-files''
                  demo_linked))) = Done \<and>
   stat (files (snd (make (demo_tools []) demo_root (makefile JS demo_params) ''copy-files''
          (snd (make (demo_tools []) demo_root (makefile JS demo_params) ''copy-files''
                  demo_linked)))))
     [''work'', ''demo'', ''src'', ''actions'', ''index.js''] = Some (File ''index'')"
  by code_simp

text \<open>
  Claim C5, amended. Let the project name be a plain name, the invocation directory be
  what its path says, and none of the places the step names be a symbolic link. Then
  running \<^verbatim>\<open>copy-files\<close> a second time, right after a run that succeeded, succeeds again
  and leaves every file as the first run left it: the directories are there, and each
  \<^verbatim>\<open>cp\<close> writes over its target the content the target already has. This holds for both
  Makefiles, whatever the other programs do, and also when make leaves the recipe out.
\<close>

theorem copy_files_idempotent:
  assumes "safe_name (NAME p)"
    and "at_home (files w) root"
    and "linkfree (files w) (places v root p)"
    and "make tools root (makefile v p) ''copy-files'' w = (Done, w1)"
  shows "\<exists>w2. make tools' root (makefile v p) ''copy-files'' w1 = (Done, w2) \<and>
              files w2 = files w1"
proof (cases "present (files w1) root ''copy-files''")
  case True
  then show ?thesis by (simp add: make_copy_files)
next
  case False
  have same: "files w1 = files w" if "present (files w) root ''copy-files''"
    using that assms(4) by (simp add: make_copy_files)
  with False have n: "\<not> present (files w) root ''copy-files''" by auto
  with assms(4) have run: "run_rule tools root (copy_files v p) w = (Done, w1)"
    by (simp add: make_copy_files)
  from copy_files_run(1,2)[OF assms(1,2,3), of tools] run
  have ok: "fst (copy_result v root p (files w)) = None"
    and fs: "files w1 = snd (copy_result v root p (files w))"
    by (simp_all split: option.splits)
  have h: "at_home (files w1) root"
    unfolding fs using ok assms(2) by (rule copy_result_home)
  have l: "linkfree (files w1) (places v root p)"
    unfolding fs using ok assms(3) by (rule copy_result_links)
  have again: "copy_result v root p (files w1) = (None, files w1)"
    unfolding fs using ok by (rule copy_result_again)
  let ?r = "run_rule tools' root (copy_files v p) w1"
  from copy_files_run(1,2)[OF assms(1) h l, of tools'] again
  have "fst ?r = Done" "files (snd ?r) = files w1" by simp_all
  then have "?r = (Done, snd ?r) \<and> files (snd ?r) = files w1"
    by (simp add: prod_eq_iff)
  with False show ?thesis by (auto simp: make_copy_files)
qed

theorem copy_files_idempotent_witness:
  "fst (make (demo_tools []) demo_root (makefile JS demo_params) ''copy-files'' demo_skeleton) = Done \<and>
   fst (make (demo_tools [''npm'']) demo_root (makefile JS demo_params) ''copy-files''
          (snd (make (demo_tools []) demo_root (makefile JS demo_params) ''copy-files''
                  demo_skeleton))) = Done \<and>
   files (snd (make (demo_tools [''npm'']) demo_root (makefile JS demo_params) ''copy-files''
          (snd (make (demo_tools []) demo_root (makefile JS demo_params) ''copy-files''
                  demo_skeleton)))) =
   files (snd (make (demo_tools []) demo_root (makefile JS demo_params) ''copy-files''
                 demo_skeleton))"
proof -
  let ?w1 = "snd (make (demo_tools []) demo_root (makefile JS demo_params) ''copy-files''
                    demo_skeleton)"
  have s: "safe_name (NAME demo_params)"
    by (simp add: demo_params_def safe_name_def name_char_def)
  have h: "at_home (files demo_skeleton) demo_root"
    by code_simp
  have l: "linkfree (files demo_skeleton) (places JS demo_root demo_params)"
    by code_simp
  have d: "fst (make (demo_tools []) demo_root (makefile JS demo_params) ''copy-files''
                 demo_skeleton) = Done"
    by code_simp
  then have r: "make (demo_tools []) demo_root (makefile JS demo_params) ''copy-files''
        demo_skeleton = (Done, ?w1)"
    by (simp add: prod_eq_iff)
  from copy_files_idempotent[OF s h l r, of "demo_tools [''npm'']"] d show ?thesis
    by auto
qed

text \<open>
  Claim C10. Let the project name be a plain name, the invocation directory be what its
  path says, none of the places the step names be a symbolic link, and no file or
  directory named \<^verbatim>\<open>copy-files\<close> be present, so that make runs the recipe. Then
  \<^verbatim>\<open>copy-files\<close> run on its own never stops because the directory that is to hold a copy
  is missing (\<open>NoDestDir\<close>): it ends well or stops for one of four other reasons (something
  that is not a directory stands where a directory is to be made, a template is missing,
  a template is a directory, or a directory stands where the copy is to be written). The
  programs it starts are a first part of the \<^verbatim>\<open>mkdir -p\<close> lines followed by the \<^verbatim>\<open>cp\<close>
  lines, so every \<^verbatim>\<open>mkdir -p\<close> has run before the first \<^verbatim>\<open>cp\<close>. Unless a \<^verbatim>\<open>mkdir -p\<close> stopped
  the run, \<^verbatim>\<open>NAME\<close>, \<^verbatim>\<open>NAME/src\<close> and every directory of the \<^verbatim>\<open>mkdir -p\<close> lines are
  directories afterwards, whatever became of the copies. And from a file system with
  nothing at \<^verbatim>\<open>NAME\<close> or below it (no step was ever run) in which the templates are regular
  files, the step ends well and every destination holds the content of its template.
\<close>

theorem copy_files_never_lacks_directory:
  assumes "safe_name (NAME p)"
    and "at_home (files w) root"
    and "linkfree (files w) (places v root p)"
    and "\<not> present (files w) root ''copy-files''"
  shows "(fst (make tools root (makefile v p) ''copy-files'' w) = Done \<or>
          fst (make tools root (makefile v p) ''copy-files'' w) = Stopped ''copy-files'' NotADirectory \<or>
          fst (make tools root (makefile v p) ''copy-files'' w) = Stopped ''copy-files'' NoSuchFile \<or>
          fst (make tools root (makefile v p) ''copy-files'' w) = Stopped ''copy-files'' OmitDirectory \<or>
          fst (make tools root (makefile v p) ''copy-files'' w) = Stopped ''copy-files'' OverwriteDir) \<and>
         prefix (drop (length (invoked w))
                   (invoked (snd (make tools root (makefile v p) ''copy-files'' w))))
           (map (\<lambda>d. (root, [''mkdir'', ''-p'', NAME p @ ''/src/'' @ d])) (copy_dirs v)
            @ map (\<lambda>(s, d). (root, [''cp'', s, NAME p @ ''/src/'' @ d])) (copy_pairs v)) \<and>
         (fst (make tools root (makefile v p) ''copy-files'' w) \<noteq> Stopped ''copy-files'' NotADirectory \<longrightarrow>
          (\<forall>d \<in> set (copy_dirs v).
             stat (files (snd (make tools root (makefile v p) ''copy-files'' w)))
               (root @ [NAME p]) = Some Dir \<and>
             stat (files (snd (make tools root (makefile v p) ''copy-files'' w)))
               (root @ [NAME p, ''src'']) = Some Dir \<and>
             stat (files (snd (make tools root (makefile v p) ''copy-files'' w)))
               (root @ [NAME p, ''src'', d]) = Some Dir)) \<and>
         (unmade (files w) (root @ [NAME p]) \<and>
          (\<forall>(s, d) \<in> set (copy_pairs v). \<exists>c. stat (files w) (root @ [s]) = Some (File c)) \<longrightarrow>
          fst (make tools root (makefile v p) ''copy-files'' w) = Done \<and>
          (\<forall>(s, d) \<in> set (copy_pairs v).
             stat (files (snd (make tools root (makefile v p) ''copy-files'' w)))
               (root @ NAME p # ''src'' # split_path d) = stat (files w) (root @ [s])))"
proof -
  let ?r = "run_rule tools root (copy_files v p) w"
  let ?c = "copy_result v root p (files w)"
  have m: "make tools root (makefile v p) ''copy-files'' w = ?r"
    using assms(4) by (simp add: make_copy_files)
  note run = copy_files_run(1,2)[OF assms(1,2,3), of tools]
  have 1: "fst ?r = Done \<or> fst ?r = Stopped ''copy-files'' NotADirectory \<or>
      fst ?r = Stopped ''copy-files'' NoSuchFile \<or> fst ?r = Stopped ''copy-files'' OmitDirectory \<or>
      fst ?r = Stopped ''copy-files'' OverwriteDir"
    using copy_result_errors[of v root p "files w"] run(1) by auto
  have r: "?r = (fst ?r, snd ?r)" by simp
  from run_rule_calls[OF copy_files_straight r]
  have 2: "prefix (drop (length (invoked w)) (invoked (snd ?r)))
           (map (\<lambda>d. (root, [''mkdir'', ''-p'', NAME p @ ''/src/'' @ d])) (copy_dirs v)
            @ map (\<lambda>(s, d). (root, [''cp'', s, NAME p @ ''/src/'' @ d])) (copy_pairs v))"
    by (auto simp: copy_files_calls copy_calls_def)
  have 3: "stat (files (snd ?r)) (root @ [NAME p]) = Some Dir \<and>
           stat (files (snd ?r)) (root @ [NAME p, ''src'']) = Some Dir \<and>
           stat (files (snd ?r)) (root @ [NAME p, ''src'', d]) = Some Dir"
    if ne: "fst ?r \<noteq> Stopped ''copy-files'' NotADirectory" and d: "d \<in> set (copy_dirs v)" for d
  proof -
    from ne run(1) have "fst ?c \<noteq> Some NotADirectory" by auto
    from copy_result_dirs[OF this d, of "root @ [NAME p]"]
      copy_result_dirs[OF this d, of "root @ [NAME p, ''src'']"]
      copy_result_dirs[OF this d, of "root @ [NAME p, ''src'', d]"]
    show ?thesis
      unfolding run(2) by simp
  qed
  have 4: "fst ?r = Done \<and>
          (\<forall>(s, d) \<in> set (copy_pairs v).
             stat (files (snd ?r)) (root @ NAME p # ''src'' # split_path d)
               = stat (files w) (root @ [s]))"
    if u: "unmade (files w) (root @ [NAME p])"
      and t: "\<forall>(s, d) \<in> set (copy_pairs v). \<exists>c. stat (files w) (root @ [s]) = Some (File c)"
  proof -
    from copy_result_fresh[OF u t] have ok: "fst ?c = None" .
    with run(1) have dn: "fst ?r = Done" by simp
    have "stat (files (snd ?r)) (root @ NAME p # ''src'' # split_path d)
               = stat (files w) (root @ [s])" if sd: "(s, d) \<in> set (copy_pairs v)" for s d
    proof -
      have "stat (files w) (root @ NAME p # ''src'' # split_path d) = None"
        using unmade_stat[OF u, of "root @ NAME p # ''src'' # split_path d"]
        by (simp add: under_def)
      with copy_result_copies[OF ok sd] show ?thesis
        unfolding run(2) by auto
    qed
    with dn show ?thesis by auto
  qed
  from 1 2 3 4 show ?thesis unfolding m by blast
qed

theorem copy_files_never_lacks_directory_witness:
  "fst (make (demo_tools []) demo_root (makefile TS demo_params) ''copy-files'' demo_world)
     = Done \<and>
   stat (files demo_world) [''work'', ''demo''] = None \<and>
   stat (files (snd (make (demo_tools []) demo_root (makefile TS demo_params) ''copy-files''
                       demo_world))) [''work'', ''demo'', ''src''] = Some Dir \<and>
   stat (files (snd (make (demo_tools []) demo_root (makefile TS demo_params) ''copy-files''
                       demo_world))) [''work'', ''demo'', ''src'', ''app''] = Some Dir \<and>
   stat (files (snd (make (demo_tools []) demo_root (makefile TS demo_params) ''copy-files''
                       demo_world))) [''work'', ''demo'', ''src'', ''app'', ''store.tsx'']
     = Some (File ''store'')"
proof -
  let ?r = "make (demo_tools []) demo_root (makefile TS demo_params) ''copy-files'' demo_world"
  have s: "safe_name (NAME demo_params)"
    by (simp add: demo_params_def safe_name_def name_char_def)
  have h: "at_home (files demo_world) demo_root"
    by code_simp
  have l: "linkfree (files demo_world) (places TS demo_root demo_params)"
    by code_simp
  have n: "\<not> present (files demo_world) demo_root ''copy-files''"
    by code_simp
  have u: "unmade (files demo_world) (demo_root @ [NAME demo_params])"
    by code_simp
  have t: "\<forall>(s, d) \<in> set (copy_pairs TS).
      \<exists>c. stat (files demo_world) (demo_root @ [s]) = Some (File c)"
    by (simp add: copy_pairs_def demo_world_def demo_files_def demo_root_def stat_def)
  have e: "stat (files demo_world) [''work'', ''demo''] = None"
    "stat (files demo_world) (demo_root @ [''boilerplate-store.ts'']) = Some (File ''store'')"
    by code_simp+
  have p: "demo_root @ [NAME demo_params, ''src''] = [''work'', ''demo'', ''src'']"
    "demo_root @ [NAME demo_params, ''src'', ''app''] = [''work'', ''demo'', ''src'', ''app'']"
    "demo_root @ NAME demo_params # ''src'' # split_path ''app/store.tsx''
       = [''work'', ''demo'', ''src'', ''app'', ''store.tsx'']"
    by code_simp+
  have mem: "''app'' \<in> set (copy_dirs TS)"
    "(''boilerplate-store.ts'', ''app/store.tsx'') \<in> set (copy_pairs TS)"
    by (simp_all add: copy_dirs_def copy_pairs_def)
  note c = copy_files_never_lacks_directory[OF s h l n, of "demo_tools []"]
  from c u t have d: "fst ?r = Done" by blast
  with c mem(1) have dirs: "stat (files (snd ?r)) (demo_root @ [NAME demo_params, ''src'']) = Some Dir"
    "stat (files (snd ?r)) (demo_root @ [NAME demo_params, ''src'', ''app'']) = Some Dir"
    by auto
  from c u t mem(2)
  have "stat (files (snd ?r)) (demo_root @ NAME demo_params # ''src'' # split_path ''app/store.tsx'')
      = stat (files demo_world) (demo_root @ [''boilerplate-store.ts''])"
    by fast
  with d dirs e show ?thesis unfolding p by simp
qed

section \<open>The git-commit step\<close>

text \<open>
  The first line of the JavaScript \<^verbatim>\<open>git-commit\<close> is \<^verbatim>\<open>mv -r $(NAME) $(PARENT_DIR)/.\<close>, and
  \<^verbatim>\<open>mv\<close> has no option \<^verbatim>\<open>-r\<close>: whatever the parameters, the tools and the files, the recipe
  stops there. A JavaScript \<^verbatim>\<open>build\<close> ends well only if make leaves the step out, which
  it does when a file or directory named \<^verbatim>\<open>git-commit\<close> is present.
\<close>

lemma js_git_commit_stops:
  "run_rule tools root (git_commit JS p) w =
     (Stopped ''git-commit'' InvalidOption,
      w\<lparr>invoked := invoked w @ [(root, [''mv'', ''-r'', NAME p, PARENT_DIR p @ ''/.''])]\<rparr>)"
  by (simp add: run_rule_def git_commit_def run_tool_def coreutil_def is_option_Cons
      mv_letters_def)

lemma js_build_done_without_commit:
  assumes "fst (make tools root (makefile JS p) ''build'' w) = Done"
  shows "\<exists>rs. reached (snd (make tools root (makefile JS p) ''build'' w)) = reached w @ rs \<and>
              (''git-commit'', True) \<notin> set rs"
proof -
  let ?r = "run_steps tools root (makefile JS p) (build_steps JS) w"
  from assms have "?r = (Done, snd ?r)" by (simp add: make_build prod_eq_iff)
  from run_steps_never[OF rule_for_makefile(8) _ this] js_git_commit_stops
  show ?thesis by (simp add: make_build)
qed

lemma js_build_done_example:
  "fst (make (demo_tools []) demo_root (makefile JS demo_params) ''build''
          (demo_world\<lparr>files := ([''work'', ''git-commit''], File []) # demo_files\<rparr>)) = Done \<and>
   reached (snd (make (demo_tools []) demo_root (makefile JS demo_params) ''build''
          (demo_world\<lparr>files := ([''work'', ''git-commit''], File []) # demo_files\<rparr>))) =
     [(''create-react-app'', True), (''configure-prettier'', True), (''install-redux'', True),
      (''install-router'', True), (''install-bootstrap'', True),
      (''install-styled-components'', True), (''copy-files'', True), (''git-commit'', False)] \<and>
   filter (\<lambda>(c, argv). take 1 argv = [''mv''])
     (invoked (snd (make (demo_tools []) demo_root (makefile JS demo_params) ''build''
          (demo_world\<lparr>files := ([''work'', ''git-commit''], File []) # demo_files\<rparr>)))) = []"
  by code_simp

text \<open>
  Claim C3 says that the step moves the project under \<^verbatim>\<open>PARENT_DIR\<close> and leaves one commit,
  in both variants. In the sample run of the JavaScript \<^verbatim>\<open>build\<close> every step before
  \<^verbatim>\<open>git-commit\<close> ends well and \<^verbatim>\<open>mv -r\<close> is the last program started: the project is
  still in the invocation directory, nothing is at \<^verbatim>\<open>/tmp/demo\<close>, and \<^verbatim>\<open>git\<close> was never
  started.
\<close>

theorem js_finalize_rejected:
  "fst (make (demo_tools []) demo_root (makefile JS demo_params) ''build'' demo_world) =
     Stopped ''git-commit'' InvalidOption \<and>
   last (invoked (snd (make (demo_tools []) demo_root (makefile JS demo_params) ''build''
                         demo_world))) = ([''work''], [''mv'', ''-r'', ''demo'', ''/tmp/.'']) \<and>
   stat (files (snd (make (demo_tools []) demo_root (makefile JS demo_params) ''build''
                       demo_world))) [''work'', ''demo''] = Some Dir \<and>
   stat (files (snd (make (demo_tools []) demo_root (makefile JS demo_params) ''build''
                       demo_world))) [''tmp'', ''demo''] = None \<and>
   filter (\<lambda>(c, argv). take 1 argv = [''git''])
     (invoked (snd (make (demo_tools []) demo_root (makefile JS demo_params) ''build''
                      demo_world))) = []"
  by code_simp

text \<open>
  The TypeScript line is \<^verbatim>\<open>mv $(NAME) $(PARENT_DIR)\<close>. In the sample run it moves the project
  with the copied templates to \<^verbatim>\<open>/tmp/demo\<close>, and \<^verbatim>\<open>git init\<close>, \<^verbatim>\<open>git add .\<close> and one
  \<^verbatim>\<open>git commit\<close> with the fixed message are started there. With the default
  \<^verbatim>\<open>PARENT_DIR = .\<close> the project is already where \<^verbatim>\<open>mv\<close> is to put it, and \<^verbatim>\<open>mv\<close> stops
  with "are the same file".
\<close>

lemma ts_finalize_demo:
  "fst (make (demo_tools []) demo_root (makefile TS demo_params) ''build'' demo_world) = Done \<and>
   stat (files (snd (make (demo_tools []) demo_root (makefile TS demo_params) ''build''
                       demo_world))) [''work'', ''demo''] = None \<and>
   stat (files (snd (make (demo_tools []) demo_root (makefile TS demo_params) ''build''
                       demo_world))) [''tmp'', ''demo''] = Some Dir \<and>
   stat (files (snd (make (demo_tools []) demo_root (makefile TS demo_params) ''build''
                       demo_world))) [''tmp'', ''demo'', ''src'', ''App.tsx'']
     = Some (File ''app-ts'') \<and>
   drop 11 (invoked (snd (make (demo_tools []) demo_root (makefile TS demo_params) ''build''
                            demo_world))) =
     [([''work''], [''mv'', ''demo'', ''/tmp'']),
      ([''tmp'', ''demo''], [''git'', ''init'']),
      ([''tmp'', ''demo''], [''git'', ''add'', ''.'']),
      ([''tmp'', ''demo''], [''git'', ''commit'', ''-mInitial setup of Redux and friends''])]"
  by code_simp

lemma ts_default_parent_dir:
  "fst (make (demo_tools []) demo_root (makefile TS (params_of TS [(''NAME'', ''demo'')]))
          ''build'' demo_world) = Stopped ''git-commit'' SameFile"
  by code_simp

end
